theory Spec2Isabelle
  imports Main "HOL-Library.Sublist" "HOL-Library.AList" "HOL-Library.Multiset" "HOL-Library.Monad_Syntax"
begin

section \<open>Strings\<close>

text \<open>
  A JavaScript string is a sequence of UTF-16 code units. It is modelled as a HOL
  \<^typ>\<open>string\<close>; a \<^typ>\<open>char\<close> stands for a code unit below 256, so the
  model covers texts in the Latin-1 range. \<open>s.length\<close> is \<^term>\<open>length s\<close>.
  The character classes below are those of ECMAScript restricted to that range.
\<close>

abbreviation LF :: char where
  "LF \<equiv> CHR 0x0A"

text \<open>\<open>\s\<close> and the characters removed by \<open>trim()\<close>: TAB, LF, VT, FF, CR, SP, NBSP.\<close>

definition is_space :: "char \<Rightarrow> bool" where
  "is_space c = (of_char c \<in> {9, 10, 11, 12, 13, 32, 160 :: nat})"

text \<open>\<open>s.split("\n")\<close>: always at least one piece.\<close>

fun split_lines :: "string \<Rightarrow> string list" where
  "split_lines [] = [[]]"
| "split_lines (c # cs) =
     (if c = LF then [] # split_lines cs
      else (case split_lines cs of
              [] \<Rightarrow> [[c]]
            | l # ls \<Rightarrow> (c # l) # ls))"

text \<open>\<open>xs.join("\n")\<close>.\<close>

fun join_lines :: "string list \<Rightarrow> string" where
  "join_lines [] = []"
| "join_lines [x] = x"
| "join_lines (x # y # ys) = x @ LF # join_lines (y # ys)"

section \<open>Chunk Splitter\<close>

definition CHUNK_SIZE :: nat where
  "CHUNK_SIZE = 500 * 1024"

definition MAX_LINES_PER_CHUNK :: nat where
  "MAX_LINES_PER_CHUNK = 5000"

record lineRange =
  start :: nat
  endLine :: nat

record chunk =
  content :: string
  lineRange :: lineRange

text \<open>The local variables of \<open>splitIntoChunks\<close> that the loop updates.\<close>

record split_state =
  chunks :: "chunk list"
  currentChunk :: "string list"
  currentSize :: nat
  chunkStartLine :: nat

text \<open>
  One iteration of the \<open>for\<close> loop, at index \<open>i\<close> with \<open>line = lines[i]\<close>.
  The thresholds \<open>S\<close> and \<open>L\<close> stand for the module constants
  \<open>CHUNK_SIZE\<close> and \<open>MAX_LINES_PER_CHUNK\<close>.
\<close>

definition split_step :: "nat \<Rightarrow> nat \<Rightarrow> split_state \<Rightarrow> nat \<Rightarrow> string \<Rightarrow> split_state" where
  "split_step S L st i line =
     (let lineSize = length line + 1 in
      if (currentSize st + lineSize > S \<or> length (currentChunk st) \<ge> L)
         \<and> length (currentChunk st) > 0
      then \<lparr>chunks = chunks st @
               [\<lparr>content = join_lines (currentChunk st),
                 lineRange = \<lparr>start = chunkStartLine st + 1, endLine = i\<rparr>\<rparr>],
            currentChunk = [line],
            currentSize = lineSize,
            chunkStartLine = i\<rparr>
      else \<lparr>chunks = chunks st,
            currentChunk = currentChunk st @ [line],
            currentSize = currentSize st + lineSize,
            chunkStartLine = chunkStartLine st\<rparr>)"

fun split_loop :: "nat \<Rightarrow> nat \<Rightarrow> split_state \<Rightarrow> nat \<Rightarrow> string list \<Rightarrow> split_state" where
  "split_loop S L st i [] = st"
| "split_loop S L st i (line # rest) = split_loop S L (split_step S L st i line) (Suc i) rest"

definition split_init :: split_state where
  "split_init = \<lparr>chunks = [], currentChunk = [], currentSize = 0, chunkStartLine = 0\<rparr>"

definition splitIntoChunksWith :: "nat \<Rightarrow> nat \<Rightarrow> string list \<Rightarrow> chunk list" where
  "splitIntoChunksWith S L lines =
     (let st = split_loop S L split_init 0 lines in
      if length (currentChunk st) > 0
      then chunks st @
             [\<lparr>content = join_lines (currentChunk st),
               lineRange = \<lparr>start = chunkStartLine st + 1, endLine = length lines\<rparr>\<rparr>]
      else chunks st)"

definition splitIntoChunks :: "string list \<Rightarrow> chunk list" where
  "splitIntoChunks lines = splitIntoChunksWith CHUNK_SIZE MAX_LINES_PER_CHUNK lines"

text \<open>The size the loop counts for a group of lines: each line's length plus one.\<close>

definition size_count :: "string list \<Rightarrow> nat" where
  "size_count ls = sum_list (map (\<lambda>l. length l + 1) ls)"

text \<open>The lines \<open>a..b\<close> (1-indexed, inclusive) of a text.\<close>

definition lines_of_range :: "string list \<Rightarrow> nat \<Rightarrow> nat \<Rightarrow> string list" where
  "lines_of_range lines a b = take (b + 1 - a) (drop (a - 1) lines)"

text \<open>
  A chunk list covers the lines \<open>n .. m - 1\<close> without gap or overlap: each chunk starts
  where the one before ended, and none is empty.
\<close>

fun contiguous :: "nat \<Rightarrow> chunk list \<Rightarrow> nat \<Rightarrow> bool" where
  "contiguous n [] m = (n = m)"
| "contiguous n (c # cs) m =
     (start (lineRange c) = n \<and> n \<le> endLine (lineRange c)
      \<and> contiguous (endLine (lineRange c) + 1) cs m)"

text \<open>
  Loop invariant of \<open>splitIntoChunks\<close> after the lines \<open>xs\<close> have been read: the open
  chunk is the tail of \<open>xs\<close> from \<open>chunkStartLine\<close>, the closed chunks tile the lines
  before it, and each closed chunk holds exactly the lines of its range.
\<close>

definition split_inv :: "string list \<Rightarrow> split_state \<Rightarrow> bool" where
  "split_inv xs st \<longleftrightarrow>
     chunkStartLine st \<le> length xs
     \<and> currentChunk st = drop (chunkStartLine st) xs
     \<and> currentSize st = size_count (currentChunk st)
     \<and> contiguous 1 (chunks st) (chunkStartLine st + 1)
     \<and> (xs \<noteq> [] \<longrightarrow> currentChunk st \<noteq> [])
     \<and> join_lines (map content (chunks st) @ currentChunk st) = join_lines xs
     \<and> (\<forall>c \<in> set (chunks st).
            1 \<le> start (lineRange c) \<and> endLine (lineRange c) \<le> chunkStartLine st
            \<and> content c = join_lines (lines_of_range xs (start (lineRange c)) (endLine (lineRange c))))"

text \<open>
  A group of lines respects the thresholds: at most \<open>L\<close> lines, and at most \<open>S\<close> in
  size unless it is one single line that is larger than \<open>S\<close> by itself.
\<close>

definition group_ok :: "nat \<Rightarrow> nat \<Rightarrow> string list \<Rightarrow> bool" where
  "group_ok S L g \<longleftrightarrow>
     length g \<le> L \<and> (size_count g \<le> S \<or> (\<exists>line. g = [line] \<and> S < length line + 1))"

definition bound_inv :: "nat \<Rightarrow> nat \<Rightarrow> string list \<Rightarrow> split_state \<Rightarrow> bool" where
  "bound_inv S L xs st \<longleftrightarrow>
     (\<forall>c \<in> set (chunks st).
        group_ok S L (lines_of_range xs (start (lineRange c)) (endLine (lineRange c))))
     \<and> (currentChunk st \<noteq> [] \<longrightarrow> group_ok S L (currentChunk st))"


section \<open>Case mapping\<close>

text \<open>
  The code units below 256 that \<open>toLowerCase\<close> changes: \<open>A\<close> to \<open>Z\<close> and the
  Latin-1 capitals U+00C0 to U+00DE without the multiplication sign U+00D7. Each is
  mapped to the code unit 32 above it.
\<close>

definition is_upper :: "char \<Rightarrow> bool" where
  "is_upper c = (let n = of_char c :: nat in
     (65 \<le> n \<and> n \<le> 90) \<or> (192 \<le> n \<and> n \<le> 222 \<and> n \<noteq> 215))"

definition toLowerChar :: "char \<Rightarrow> char" where
  "toLowerChar c = (if is_upper c then char_of (of_char c + 32 :: nat) else c)"

definition toLowerCase :: "string \<Rightarrow> string" where
  "toLowerCase s = map toLowerChar s"

section \<open>Similarity fallback\<close>

record LogAnalysisResult =
  patterns :: "string list"
  anomalies :: "string list"
  rootCauses :: "string list"
  summary :: string

record FileAnalysisResult =
  filename :: string
  fileSize :: nat
  analysis :: LogAnalysisResult

text \<open>
  The field \<open>exactMatches\<close> of \<open>SimilarityResult\<close> is optional and is filled in by the
  caller; the fallback does not set it, so it is left out of the record here.
\<close>

record SimilarityResult =
  sharedPatterns :: "string list"
  sharedAnomalies :: "string list"
  sharedRootCauses :: "string list"
  correlations :: "string list"

text \<open>
  A \<open>Map<string, number>\<close> keeps its keys in insertion order, and \<open>set\<close> on a key
  that is present overwrites its value in place: an association list under
  \<^const>\<open>AList.update\<close>. \<open>counts.get(k) || 0\<close> reads it.
\<close>

definition get_count :: "(string \<times> nat) list \<Rightarrow> string \<Rightarrow> nat" where
  "get_count counts k = (case map_of counts k of None \<Rightarrow> 0 | Some n \<Rightarrow> n)"

text \<open>The body of each \<open>forEach\<close>.\<close>

definition count_item :: "string \<Rightarrow> (string \<times> nat) list \<Rightarrow> (string \<times> nat) list" where
  "count_item p counts =
     (let normalized = toLowerCase p in
      AList.update normalized (get_count counts normalized + 1) counts)"

record sim_counts =
  patternCounts :: "(string \<times> nat) list"
  anomalyCounts :: "(string \<times> nat) list"
  rootCauseCounts :: "(string \<times> nat) list"

text \<open>The body of \<open>for (const fr of fileResults)\<close>.\<close>

definition count_file :: "FileAnalysisResult \<Rightarrow> sim_counts \<Rightarrow> sim_counts" where
  "count_file fr cs =
     \<lparr>patternCounts = fold count_item (patterns (analysis fr)) (patternCounts cs),
      anomalyCounts = fold count_item (anomalies (analysis fr)) (anomalyCounts cs),
      rootCauseCounts = fold count_item (rootCauses (analysis fr)) (rootCauseCounts cs)\<rparr>"

text \<open>\<open>Array.from(m.entries()).filter(([, count]) => count >= threshold).map(([k]) => k)\<close>.\<close>

definition at_least :: "nat \<Rightarrow> (string \<times> nat) list \<Rightarrow> string list" where
  "at_least threshold counts = map fst (filter (\<lambda>(k, count). count \<ge> threshold) counts)"

definition findSimilaritiesManually :: "FileAnalysisResult list \<Rightarrow> SimilarityResult" where
  "findSimilaritiesManually fileResults =
     (let cs = fold count_file fileResults
                 \<lparr>patternCounts = [], anomalyCounts = [], rootCauseCounts = []\<rparr>;
          threshold = 2
      in \<lparr>sharedPatterns = at_least threshold (patternCounts cs),
          sharedAnomalies = at_least threshold (anomalyCounts cs),
          sharedRootCauses = at_least threshold (rootCauseCounts cs),
          correlations = []\<rparr>)"

text \<open>
  The number of input files in which an item equal to \<open>k\<close> up to case occurs, for the
  list selected by \<open>sel\<close>.
\<close>

definition files_with :: "(LogAnalysisResult \<Rightarrow> string list) \<Rightarrow> string \<Rightarrow> FileAnalysisResult list \<Rightarrow> nat" where
  "files_with sel k fileResults =
     length (filter (\<lambda>fr. k \<in> set (map toLowerCase (sel (analysis fr)))) fileResults)"

text \<open>All items of the list selected by \<open>sel\<close>, over all files, in reading order.\<close>

definition all_items :: "(LogAnalysisResult \<Rightarrow> string list) \<Rightarrow> FileAnalysisResult list \<Rightarrow> string list" where
  "all_items sel fileResults = concat (map (\<lambda>fr. sel (analysis fr)) fileResults)"

section \<open>Character classes and string helpers\<close>

text \<open>
  Line terminators (the characters \<open>.\<close> does not match) below 256 are LF and CR; both
  are also white space. \<open>\d\<close> is \<open>0\<close> to \<open>9\<close>.
\<close>

definition is_line_terminator :: "char \<Rightarrow> bool" where
  "is_line_terminator c = (of_char c \<in> {10, 13 :: nat})"

definition is_digit :: "char \<Rightarrow> bool" where
  "is_digit c = (let n = of_char c :: nat in 48 \<le> n \<and> n \<le> 57)"

text \<open>\<open>s.trim()\<close>.\<close>

definition trim :: "string \<Rightarrow> string" where
  "trim s = rev (dropWhile is_space (rev (dropWhile is_space s)))"

text \<open>\<open>s.startsWith(p)\<close> and \<open>s.includes(p)\<close>.\<close>

fun startsWith :: "string \<Rightarrow> string \<Rightarrow> bool" where
  "startsWith s [] = True"
| "startsWith [] (p # ps) = False"
| "startsWith (c # cs) (p # ps) = (c = p \<and> startsWith cs ps)"

fun str_includes :: "string \<Rightarrow> string \<Rightarrow> bool" where
  "str_includes [] p = startsWith [] p"
| "str_includes (c # cs) p = (startsWith (c # cs) p \<or> str_includes cs p)"

section \<open>List-Item Extractor\<close>

text \<open>
  The tail \<open>\s*(.+)\<close> of the bullet and numbered patterns, matched at the start of
  \<open>s\<close>; the result is the captured group. The greedy \<open>\s*\<close> takes all leading white
  space. What follows it, if anything, is not white space, hence not a line terminator,
  and \<open>.+\<close> runs to the next line terminator. If nothing follows, the matcher gives
  white space back until \<open>.+\<close> can take one character: the last one of \<open>s\<close> that
  is not a line terminator, and only that one, since line terminators alone follow it.
\<close>

definition ws_then_rest :: "string \<Rightarrow> string option" where
  "ws_then_rest s =
     (case dropWhile is_space s of
        c # cs \<Rightarrow> Some (takeWhile (\<lambda>x. \<not> is_line_terminator x) (c # cs))
      | [] \<Rightarrow> (case dropWhile is_line_terminator (rev s) of
                 [] \<Rightarrow> None
               | c # _ \<Rightarrow> Some [c]))"

text \<open>
  \<open>/^[-*\<bullet>]\s*(.+)/\<close>. The bullet U+2022 is not a code unit below 256, so of the three
  markers the hyphen and the asterisk can occur in a modelled string.
\<close>

definition bulletMatch :: "string \<Rightarrow> string option" where
  "bulletMatch s =
     (case s of
        [] \<Rightarrow> None
      | c # cs \<Rightarrow> if c = CHR ''-'' \<or> c = CHR ''*'' then ws_then_rest cs else None)"

text \<open>
  \<open>/^\d+[.)]\s*(.+)/\<close>. The greedy \<open>\d+\<close> takes all leading digits; giving one back
  would leave a digit where \<open>.\<close> or \<open>)\<close> is required.
\<close>

definition numberedMatch :: "string \<Rightarrow> string option" where
  "numberedMatch s =
     (if takeWhile is_digit s = [] then None
      else (case dropWhile is_digit s of
              [] \<Rightarrow> None
            | c # cs \<Rightarrow> if c = CHR ''.'' \<or> c = CHR '')'' then ws_then_rest cs else None))"

text \<open>
  The lazy group \<open>(.+?)\<close> followed by \<open>\*\*\<close>, after the group's first character
  has been taken: stop at the first position where two asterisks follow, fail at a line
  terminator or at the end. Returns the rest of the group and what follows the asterisks.
\<close>

fun bold_scan :: "string \<Rightarrow> (string \<times> string) option" where
  "bold_scan [] = None"
| "bold_scan (c # cs) =
     (if startsWith (c # cs) ''**'' then Some ([], drop 1 cs)
      else if is_line_terminator c then None
      else (case bold_scan cs of
              None \<Rightarrow> None
            | Some (g, r) \<Rightarrow> Some (c # g, r)))"

text \<open>
  \<open>/^\*\*(.+?)\*\*[:\s]*(.*)/\<close>: the two groups. After the closing asterisks the greedy
  \<open>[:\s]*\<close> and \<open>(.*)\<close> always match, so the first closing pair found is final.
\<close>

definition boldMatch :: "string \<Rightarrow> (string \<times> string) option" where
  "boldMatch s =
     (if startsWith s ''**'' then
        (case drop 2 s of
           [] \<Rightarrow> None
         | c # cs \<Rightarrow>
             if is_line_terminator c then None
             else (case bold_scan cs of
                     None \<Rightarrow> None
                   | Some (g, r) \<Rightarrow>
                       Some (c # g,
                             takeWhile (\<lambda>x. \<not> is_line_terminator x)
                               (dropWhile (\<lambda>x. x = CHR '':'' \<or> is_space x) r))))
      else None)"

record extract_state =
  items :: "string list"
  currentItem :: string

text \<open>\<open>if (currentItem) { items.push(currentItem.trim()); }\<close>\<close>

definition push_current :: "extract_state \<Rightarrow> string list" where
  "push_current st = (if currentItem st \<noteq> [] then items st @ [trim (currentItem st)] else items st)"

text \<open>The body of \<open>for (const line of lines)\<close>.\<close>

definition extract_step :: "string \<Rightarrow> extract_state \<Rightarrow> extract_state" where
  "extract_step line st =
     (let trimmed = trim line in
      if trimmed = [] then
        (if currentItem st \<noteq> [] then \<lparr>items = items st @ [trim (currentItem st)], currentItem = []\<rparr>
         else st)
      else (case bulletMatch trimmed of
        Some g \<Rightarrow> \<lparr>items = push_current st, currentItem = g\<rparr>
      | None \<Rightarrow> (case numberedMatch trimmed of
        Some g \<Rightarrow> \<lparr>items = push_current st, currentItem = g\<rparr>
      | None \<Rightarrow> (case boldMatch trimmed of
        Some (g1, g2) \<Rightarrow>
          \<lparr>items = push_current st,
           currentItem = (if g2 \<noteq> [] then ''**'' @ g1 @ ''**: '' @ g2 else g1)\<rparr>
      | None \<Rightarrow>
          if currentItem st \<noteq> [] \<and> (startsWith line ''  '' \<or> startsWith line [CHR 0x09])
          then st\<lparr>currentItem := currentItem st @ '' '' @ trimmed\<rparr>
          else if currentItem st = [] \<and> trimmed \<noteq> [] \<and> \<not> startsWith trimmed ''#''
          then st\<lparr>currentItem := trimmed\<rparr>
          else st))))"

text \<open>The items pushed by the loop and by the flush after it, before the final filter.\<close>

definition collectItems :: "string \<Rightarrow> string list" where
  "collectItems section_text =
     push_current (fold extract_step (split_lines section_text) \<lparr>items = [], currentItem = []\<rparr>)"

text \<open>\<open>/^\[.+\]$/\<close>: an opening bracket, one or more characters none of which is a line
  terminator, and a closing bracket at the very end.\<close>

definition bracketed :: "string \<Rightarrow> bool" where
  "bracketed item =
     (case item of
        [] \<Rightarrow> False
      | c # cs \<Rightarrow> c = CHR ''['' \<and> cs \<noteq> [] \<and> last cs = CHR '']'' \<and> butlast cs \<noteq> []
                 \<and> list_all (\<lambda>x. \<not> is_line_terminator x) (butlast cs))"

text \<open>The predicate of the final \<open>items.filter\<close>.\<close>

definition keep_item :: "string \<Rightarrow> bool" where
  "keep_item item \<longleftrightarrow>
     item \<noteq> [] \<and>
     length item > 0 \<and>
     \<not> str_includes item ''[List'' \<and>
     \<not> str_includes (toLowerCase item) ''list here'' \<and>
     \<not> bracketed item \<and>
     \<not> str_includes (toLowerCase item) ''none found'' \<and>
     \<not> str_includes (toLowerCase item) ''no patterns'' \<and>
     \<not> str_includes (toLowerCase item) ''no anomalies'' \<and>
     \<not> str_includes (toLowerCase item) ''no root causes''"

definition extractListItems :: "string \<Rightarrow> string list" where
  "extractListItems section_text = filter keep_item (collectItems section_text)"

text \<open>The negative-result phrases named by the specification.\<close>

definition negative_phrases :: "string list" where
  "negative_phrases = [''none found'', ''no patterns'', ''no anomalies'', ''no root causes'']"

text \<open>
  The specification's wording of \<open>wholly bracketed\<close>: the item is an opening bracket, a
  non-empty middle without line terminator, and a closing bracket.
\<close>

definition wholly_bracketed :: "string \<Rightarrow> bool" where
  "wholly_bracketed item \<longleftrightarrow>
     (\<exists>mid. item = ''['' @ mid @ '']'' \<and> mid \<noteq> [] \<and> (\<forall>c. c \<in> set mid \<longrightarrow> \<not> is_line_terminator c))"

section \<open>Section Parser\<close>

text \<open>
  A literal of a pattern with the \<open>i\<close> flag, matched at the start of \<open>s\<close>; the result
  is what follows the match. For the letters used below a code unit matches a pattern
  letter exactly when both have the same lower-case form.
\<close>

fun match_ci :: "string \<Rightarrow> string \<Rightarrow> string option" where
  "match_ci [] s = Some s"
| "match_ci (p # ps) [] = None"
| "match_ci (p # ps) (c # cs) = (if toLowerChar c = toLowerChar p then match_ci ps cs else None)"

text \<open>An optional letter such as \<open>S?\<close>: greedy, and never given back, since every tail
  that follows it in the patterns below matches anything.\<close>

definition opt_ci :: "char \<Rightarrow> string \<Rightarrow> string" where
  "opt_ci p s = (case s of [] \<Rightarrow> s | c # cs \<Rightarrow> if toLowerChar c = toLowerChar p then cs else s)"

text \<open>\<open>##\s*\<close>. Giving white space back never helps: a label letter must follow.\<close>

definition heading_start :: "string \<Rightarrow> string option" where
  "heading_start s = (if startsWith s ''##'' then Some (dropWhile is_space (drop 2 s)) else None)"

text \<open>\<open>##\s*PATTERNS?\<close>\<close>

definition patterns_heading :: "string \<Rightarrow> string option" where
  "patterns_heading s =
     (case heading_start s of
        None \<Rightarrow> None
      | Some r \<Rightarrow> map_option (opt_ci CHR ''S'') (match_ci ''PATTERN'' r))"

text \<open>\<open>##\s*ANOMAL(?:Y|IES)\<close>\<close>

definition anomalies_heading :: "string \<Rightarrow> string option" where
  "anomalies_heading s =
     (case heading_start s of
        None \<Rightarrow> None
      | Some r \<Rightarrow>
          (case match_ci ''ANOMAL'' r of
             None \<Rightarrow> None
           | Some r1 \<Rightarrow>
               (case match_ci ''Y'' r1 of
                  Some r2 \<Rightarrow> Some r2
                | None \<Rightarrow> match_ci ''IES'' r1)))"

text \<open>\<open>##\s*ROOT\s*CAUSES?\<close>\<close>

definition rootCauses_heading :: "string \<Rightarrow> string option" where
  "rootCauses_heading s =
     (case heading_start s of
        None \<Rightarrow> None
      | Some r \<Rightarrow>
          (case match_ci ''ROOT'' r of
             None \<Rightarrow> None
           | Some r1 \<Rightarrow> map_option (opt_ci CHR ''S'') (match_ci ''CAUSE'' (dropWhile is_space r1))))"

text \<open>\<open>##\s*SUMMARY\<close>\<close>

definition summary_heading :: "string \<Rightarrow> string option" where
  "summary_heading s =
     (case heading_start s of
        None \<Rightarrow> None
      | Some r \<Rightarrow> match_ci ''SUMMARY'' r)"

text \<open>
  \<open>\s*\n?\<close> after the label. The greedy \<open>\s*\<close> also takes line feeds, so the
  optional line feed finds none left; it is kept as the pattern has it.
\<close>

definition after_heading :: "string \<Rightarrow> string" where
  "after_heading r =
     (case dropWhile is_space r of
        [] \<Rightarrow> []
      | c # cs \<Rightarrow> if c = LF then cs else c # cs)"

text \<open>\<open>([\s\S]*?)(?=\n##|$)\<close>: the shortest stretch after which a line feed and two
  hashes follow, or the input ends.\<close>

fun lazy_capture :: "string \<Rightarrow> string" where
  "lazy_capture [] = []"
| "lazy_capture (c # cs) =
     (if startsWith (c # cs) [LF, CHR ''#'', CHR ''#''] then [] else c # lazy_capture cs)"

text \<open>
  A list-section pattern matched at the start of \<open>s\<close>: group 1 of the match. Once the
  heading has matched the rest of the pattern cannot fail.
\<close>

definition section_match :: "(string \<Rightarrow> string option) \<Rightarrow> string \<Rightarrow> string option" where
  "section_match heading s = map_option (\<lambda>r. lazy_capture (after_heading r)) (heading s)"

text \<open>\<open>/##\s*SUMMARY\s*\n?([\s\S]*?)$/i\<close> at the start of \<open>s\<close>: without the \<open>m\<close>
  flag \<open>$\<close> is the end of the input, so the lazy group runs to the end.\<close>

definition summary_match :: "string \<Rightarrow> string option" where
  "summary_match s = map_option after_heading (summary_heading s)"

text \<open>\<open>content.match(re)\<close> for a pattern without the \<open>g\<close> flag: the match at the
  leftmost position that has one.\<close>

fun regex_search :: "(string \<Rightarrow> 'a option) \<Rightarrow> string \<Rightarrow> 'a option" where
  "regex_search m [] = m []"
| "regex_search m (c # cs) =
     (case m (c # cs) of
        Some r \<Rightarrow> Some r
      | None \<Rightarrow> regex_search m cs)"

definition parseAnalysisResponse :: "string \<Rightarrow> LogAnalysisResult" where
  "parseAnalysisResponse response =
     \<lparr>patterns =
        (case regex_search (section_match patterns_heading) response of
           None \<Rightarrow> []
         | Some g \<Rightarrow> extractListItems g),
      anomalies =
        (case regex_search (section_match anomalies_heading) response of
           None \<Rightarrow> []
         | Some g \<Rightarrow> extractListItems g),
      rootCauses =
        (case regex_search (section_match rootCauses_heading) response of
           None \<Rightarrow> []
         | Some g \<Rightarrow> extractListItems g),
      summary =
        (case regex_search summary_match response of
           None \<Rightarrow> []
         | Some g \<Rightarrow> trim g)\<rparr>"








section \<open>Exact-Line Matcher: the normalizing patterns\<close>

text \<open>\<open>\w\<close> is \<open>[A-Za-z0-9_]\<close>; \<open>[0-9a-f]\<close> under the \<open>i\<close> flag also takes \<open>A\<close> to \<open>F\<close>.\<close>

definition is_word :: "char \<Rightarrow> bool" where
  "is_word c = (let n = of_char c :: nat in
     (48 \<le> n \<and> n \<le> 57) \<or> (65 \<le> n \<and> n \<le> 90) \<or> (97 \<le> n \<and> n \<le> 122) \<or> n = 95)"

definition is_hex :: "char \<Rightarrow> bool" where
  "is_hex c = (let n = of_char c :: nat in
     (48 \<le> n \<and> n \<le> 57) \<or> (65 \<le> n \<and> n \<le> 70) \<or> (97 \<le> n \<and> n \<le> 102))"

text \<open>
  \<open>\b\<close> between a position whose left neighbour is a word character or not
  (\<open>prev\<close>; there is none at the start of the input) and the text to its right.
\<close>

definition word_boundary :: "bool \<Rightarrow> string \<Rightarrow> bool" where
  "word_boundary prev s = (prev \<noteq> (case s of [] \<Rightarrow> False | c # _ \<Rightarrow> is_word c))"

text \<open>
  Pieces of a pattern, each matched at the start of a string and returning what follows
  the match: one character of a class, exactly \<open>n\<close> characters of a class, an optional
  character (greedy), one or more characters (greedy). Zero or more characters of a
  class, greedy, is \<^const>\<open>dropWhile\<close>. In the patterns below a greedy piece is
  always followed by something that cannot start with a character of its class, or by
  nothing, so the longest match is the only candidate and no backtracking is modelled.
\<close>

definition one_of :: "(char \<Rightarrow> bool) \<Rightarrow> string \<Rightarrow> string option" where
  "one_of P s = (case s of [] \<Rightarrow> None | c # cs \<Rightarrow> if P c then Some cs else None)"

fun exactly :: "nat \<Rightarrow> (char \<Rightarrow> bool) \<Rightarrow> string \<Rightarrow> string option" where
  "exactly 0 P s = Some s"
| "exactly (Suc n) P [] = None"
| "exactly (Suc n) P (c # cs) = (if P c then exactly n P cs else None)"

definition optional :: "(char \<Rightarrow> bool) \<Rightarrow> string \<Rightarrow> string" where
  "optional P s = (case s of [] \<Rightarrow> [] | c # cs \<Rightarrow> if P c then cs else c # cs)"

definition one_or_more :: "(char \<Rightarrow> bool) \<Rightarrow> string \<Rightarrow> string option" where
  "one_or_more P s = (case s of [] \<Rightarrow> None | c # cs \<Rightarrow> if P c then Some (dropWhile P cs) else None)"

definition lit :: "char \<Rightarrow> string \<Rightarrow> string option" where
  "lit x = one_of (\<lambda>c. c = x)"

text \<open>\<open>\d{4}-\d{2}-\d{2}[T ]\d{2}:\d{2}:\d{2}[.,]?\d*Z?\<close> under the \<open>i\<close> flag.\<close>

definition iso_stamp :: "string \<Rightarrow> string option" where
  "iso_stamp s =
     exactly 4 is_digit s \<bind> lit CHR ''-'' \<bind> exactly 2 is_digit \<bind> lit CHR ''-'' \<bind>
     exactly 2 is_digit \<bind> one_of (\<lambda>c. c = CHR ''T'' \<or> c = CHR ''t'' \<or> c = CHR '' '') \<bind>
     exactly 2 is_digit \<bind> lit CHR '':'' \<bind> exactly 2 is_digit \<bind> lit CHR '':'' \<bind>
     exactly 2 is_digit \<bind>
     (\<lambda>r. Some (optional (\<lambda>c. c = CHR ''Z'' \<or> c = CHR ''z'')
                (dropWhile is_digit (optional (\<lambda>c. c = CHR ''.'' \<or> c = CHR '','') r))))"

text \<open>The four patterns anchored at the start of the line.\<close>

definition iso_prefix :: "string \<Rightarrow> string option" where
  "iso_prefix s = map_option (dropWhile is_space) (iso_stamp s)"

definition bracket_iso_prefix :: "string \<Rightarrow> string option" where
  "bracket_iso_prefix s =
     map_option (dropWhile is_space) (lit CHR ''['' s \<bind> iso_stamp \<bind> lit CHR '']'')"

definition mdy_prefix :: "string \<Rightarrow> string option" where
  "mdy_prefix s =
     map_option (dropWhile is_space)
       (exactly 2 is_digit s \<bind> lit CHR ''/'' \<bind> exactly 2 is_digit \<bind> lit CHR ''/'' \<bind>
        exactly 4 is_digit \<bind> one_or_more is_space \<bind>
        exactly 2 is_digit \<bind> lit CHR '':'' \<bind> exactly 2 is_digit \<bind> lit CHR '':'' \<bind>
        exactly 2 is_digit)"

definition hms_prefix :: "string \<Rightarrow> string option" where
  "hms_prefix s =
     map_option (\<lambda>r. dropWhile is_space
                        (dropWhile is_digit (optional (\<lambda>c. c = CHR ''.'' \<or> c = CHR '','') r)))
       (exactly 2 is_digit s \<bind> lit CHR '':'' \<bind> exactly 2 is_digit \<bind> lit CHR '':'' \<bind>
        exactly 2 is_digit)"

text \<open>\<open>s.replace(re, '')\<close> for a pattern anchored with \<open>^\<close> and without the \<open>g\<close>
  flag: a match can only start at position 0.\<close>

definition remove_prefix :: "(string \<Rightarrow> string option) \<Rightarrow> string \<Rightarrow> string" where
  "remove_prefix m s = (case m s of None \<Rightarrow> s | Some r \<Rightarrow> r)"

text \<open>A pattern that ends in \<open>\b\<close> after a word character.\<close>

definition then_boundary :: "string \<Rightarrow> string option" where
  "then_boundary r = (if word_boundary True r then Some r else None)"

text \<open>The five patterns with the \<open>g\<close> flag, matched at one position.\<close>

definition uuid_at :: "bool \<Rightarrow> string \<Rightarrow> string option" where
  "uuid_at prev s =
     (if word_boundary prev s then
        exactly 8 is_hex s \<bind> lit CHR ''-'' \<bind> exactly 4 is_hex \<bind> lit CHR ''-'' \<bind>
        exactly 4 is_hex \<bind> lit CHR ''-'' \<bind> exactly 4 is_hex \<bind> lit CHR ''-'' \<bind>
        exactly 12 is_hex \<bind> then_boundary
      else None)"

definition hex_at :: "bool \<Rightarrow> string \<Rightarrow> string option" where
  "hex_at prev s =
     (if word_boundary prev s then
        lit CHR ''0'' s \<bind> one_of (\<lambda>c. c = CHR ''x'' \<or> c = CHR ''X'') \<bind>
        one_or_more is_hex \<bind> then_boundary
      else None)"

definition id_at :: "string \<Rightarrow> bool \<Rightarrow> string \<Rightarrow> string option" where
  "id_at name prev s =
     (if word_boundary prev s then
        match_ci name s \<bind> (\<lambda>r. Some (dropWhile (\<lambda>c. c = CHR '':'' \<or> is_space c) r)) \<bind>
        one_or_more is_digit \<bind> then_boundary
      else None)"

definition bracket_num_at :: "bool \<Rightarrow> string \<Rightarrow> string option" where
  "bracket_num_at prev s = lit CHR ''['' s \<bind> one_or_more is_digit \<bind> lit CHR '']''"

text \<open>
  \<open>s.replace(re, '')\<close> for a pattern with the \<open>g\<close> flag: scan from the left; where
  the pattern matches, drop the match and go on behind it. \<open>k\<close> counts the characters
  of the current match that are still to be dropped. The patterns here match at least
  one character.
\<close>

fun remove_all :: "(bool \<Rightarrow> string \<Rightarrow> string option) \<Rightarrow> nat \<Rightarrow> bool \<Rightarrow> string \<Rightarrow> string" where
  "remove_all m k prev [] = []"
| "remove_all m (Suc k) prev (c # cs) = remove_all m k (is_word c) cs"
| "remove_all m 0 prev (c # cs) =
     (case m prev (c # cs) of
        None \<Rightarrow> c # remove_all m 0 (is_word c) cs
      | Some r \<Rightarrow>
          if length r \<le> length cs then remove_all m (length cs - length r) (is_word c) cs
          else c # remove_all m 0 (is_word c) cs)"

definition normalizePatterns :: "(string \<Rightarrow> string) list" where
  "normalizePatterns =
     [remove_prefix iso_prefix,
      remove_prefix bracket_iso_prefix,
      remove_prefix mdy_prefix,
      remove_prefix hms_prefix,
      remove_all uuid_at 0 False,
      remove_all hex_at 0 False,
      remove_all (id_at ''pid'') 0 False,
      remove_all (id_at ''tid'') 0 False,
      remove_all bracket_num_at 0 False]"

section \<open>Exact-Line Matcher: categories\<close>

datatype category = Error | Warning | Info | Debug | Other

text \<open>\<open>/\bw\b/.test(s)\<close> for a word \<open>w\<close> of word characters.\<close>

fun test_word :: "string \<Rightarrow> bool \<Rightarrow> string \<Rightarrow> bool" where
  "test_word w prev [] = False"
| "test_word w prev (c # cs) =
     ((word_boundary prev (c # cs) \<and> startsWith (c # cs) w
        \<and> word_boundary True (drop (length w) (c # cs)))
      \<or> test_word w (is_word c) cs)"

definition test_words :: "string list \<Rightarrow> string \<Rightarrow> bool" where
  "test_words ws s = list_ex (\<lambda>w. test_word w False s) ws"

definition categorize :: "string \<Rightarrow> category" where
  "categorize ln =
     (let lower = toLowerCase ln in
      if test_words [''error'', ''failed'', ''exception'', ''crash'', ''fatal''] lower then Error
      else if test_words [''warning'', ''warn'', ''caution''] lower then Warning
      else if test_words [''info''] lower then Info
      else if test_words [''debug'', ''trace'', ''verbose''] lower then Debug
      else Other)"

section \<open>Exact-Line Matcher\<close>

text \<open>
  Field names that several of the source's object types share are told apart by a
  prefix: \<open>file_content\<close> and \<open>file_name\<close> are \<open>content\<close> and \<open>filename\<close> of an
  input file, \<open>occ_filename\<close> is \<open>filename\<close> of an occurrence, \<open>entry_occurrences\<close>
  and \<open>entry_category\<close> are \<open>occurrences\<close> and \<open>category\<close> of a \<open>lineMap\<close> value,
  \<open>match_line\<close> is \<open>line\<close> of an \<open>ExactLineMatch\<close>.
\<close>

record source_file =
  file_content :: string
  file_name :: string

record occurrence =
  occ_filename :: string
  lineNumbers :: "nat list"

record ExactLineMatch =
  match_line :: string
  occurrences :: "occurrence list"
  category :: category
  totalCount :: nat

text \<open>A value of \<open>lineMap\<close>; its \<open>occurrences\<close> map, like \<open>lineMap\<close> itself, keeps
  insertion order and is an association list.\<close>

record line_entry =
  original :: string
  entry_occurrences :: "(string \<times> nat list) list"
  entry_category :: category

text \<open>\<open>/^\d+$/.test(s)\<close>\<close>

definition all_digits :: "string \<Rightarrow> bool" where
  "all_digits s \<longleftrightarrow> s \<noteq> [] \<and> list_all is_digit s"

text \<open>The loop \<open>for (const pattern of normalizePatterns)\<close>, then \<open>trim().toLowerCase()\<close>.\<close>

definition normalize :: "string \<Rightarrow> string" where
  "normalize originalLine = toLowerCase (trim (fold (\<lambda>pattern normalized. pattern normalized) normalizePatterns originalLine))"

text \<open>\<open>entry.occurrences.get(filename).push(n)\<close>, with the entry made first if missing.\<close>

definition add_occurrence :: "string \<Rightarrow> nat \<Rightarrow> (string \<times> nat list) list \<Rightarrow> (string \<times> nat list) list" where
  "add_occurrence fname n occs =
     (let occs1 = (if map_of occs fname = None then occs @ [(fname, [])] else occs) in
      case map_of occs1 fname of
        None \<Rightarrow> occs1
      | Some lns \<Rightarrow> AList.update fname (lns @ [n]) occs1)"

text \<open>The body of the inner loop, for line \<open>lines[lineNum]\<close> of the file named \<open>fname\<close>.\<close>

definition record_line :: "string \<Rightarrow> nat \<Rightarrow> string \<Rightarrow> (string \<times> line_entry) list \<Rightarrow> (string \<times> line_entry) list" where
  "record_line fname lineNum raw lineMap =
     (let originalLine = trim raw in
      if length originalLine < 10 \<or> all_digits originalLine then lineMap
      else
        let normalized = normalize originalLine in
        if length normalized < 10 then lineMap
        else
          let lineMap1 =
                (if map_of lineMap normalized = None
                 then lineMap @ [(normalized, \<lparr>original = originalLine, entry_occurrences = [],
                                              entry_category = categorize originalLine\<rparr>)]
                 else lineMap)
          in case map_of lineMap1 normalized of
               None \<Rightarrow> lineMap1
             | Some entry \<Rightarrow>
                 AList.update normalized
                   (entry\<lparr>entry_occurrences := add_occurrence fname (lineNum + 1) (entry_occurrences entry)\<rparr>)
                   lineMap1)"

text \<open>The inner loop over the lines of one file, with their 0-based indices.\<close>

definition scan_file :: "source_file \<Rightarrow> (string \<times> line_entry) list \<Rightarrow> (string \<times> line_entry) list" where
  "scan_file file lineMap =
     fold (\<lambda>(lineNum, raw). record_line (file_name file) lineNum raw)
       (enumerate 0 (split_lines (file_content file))) lineMap"

text \<open>The match pushed for a \<open>lineMap\<close> value that has two or more file names.\<close>

definition to_match :: "line_entry \<Rightarrow> ExactLineMatch" where
  "to_match entry =
     \<lparr>match_line = original entry,
      occurrences = map (\<lambda>(fname, lns). \<lparr>occ_filename = fname, lineNumbers = take 10 lns\<rparr>)
                      (entry_occurrences entry),
      category = entry_category entry,
      totalCount = sum_list (map (\<lambda>(fname, lns). length lns) (entry_occurrences entry))\<rparr>"

definition collect_matches :: "(string \<times> line_entry) list \<Rightarrow> ExactLineMatch list" where
  "collect_matches lineMap =
     map (\<lambda>(k, entry). to_match entry)
       (filter (\<lambda>(k, entry). length (entry_occurrences entry) \<ge> 2) lineMap)"

definition categoryOrder :: "category \<Rightarrow> int" where
  "categoryOrder c = (case c of Error \<Rightarrow> 0 | Warning \<Rightarrow> 1 | Info \<Rightarrow> 2 | Debug \<Rightarrow> 3 | Other \<Rightarrow> 4)"

text \<open>The comparator handed to \<open>matches.sort\<close>.\<close>

definition compare_matches :: "ExactLineMatch \<Rightarrow> ExactLineMatch \<Rightarrow> int" where
  "compare_matches a b =
     (let categoryDiff = categoryOrder (category a) - categoryOrder (category b) in
      if categoryDiff \<noteq> 0 then categoryDiff
      else int (totalCount b) - int (totalCount a))"

text \<open>
  \<open>Array.prototype.sort\<close> with a comparator is a stable sort; for a consistent
  comparator every stable sort returns the same list, here computed by insertion from
  the right.
\<close>

fun insert_by :: "('a \<Rightarrow> 'a \<Rightarrow> int) \<Rightarrow> 'a \<Rightarrow> 'a list \<Rightarrow> 'a list" where
  "insert_by cmp x [] = [x]"
| "insert_by cmp x (y # ys) = (if cmp x y \<le> 0 then x # y # ys else y # insert_by cmp x ys)"

definition sort_by :: "('a \<Rightarrow> 'a \<Rightarrow> int) \<Rightarrow> 'a list \<Rightarrow> 'a list" where
  "sort_by cmp xs = foldr (insert_by cmp) xs []"

definition findExactLineMatches :: "source_file list \<Rightarrow> ExactLineMatch list" where
  "findExactLineMatches files =
     (if length files < 2 then []
      else
        let lineMap = fold scan_file files [];
            matches = sort_by compare_matches (collect_matches lineMap)
        in if length matches < 2 then [] else take 50 matches)"

text \<open>
  The key under which a raw line is recorded, if it is recorded at all: the checks and
  the normalization of the inner loop.
\<close>

definition line_key :: "string \<Rightarrow> string option" where
  "line_key raw =
     (let originalLine = trim raw in
      if length originalLine < 10 \<or> all_digits originalLine then None
      else if length (normalize originalLine) < 10 then None
      else Some (normalize originalLine))"

text \<open>The key \<open>k\<close> occurs in a file: one of its lines is recorded under \<open>k\<close>.\<close>

definition occurs_in :: "string \<Rightarrow> source_file \<Rightarrow> bool" where
  "occurs_in k file \<longleftrightarrow> (\<exists>raw \<in> set (split_lines (file_content file)). line_key raw = Some k)"

text \<open>A qualifying group: the key occurs in two input files with different names.\<close>

definition qualifying :: "source_file list \<Rightarrow> string \<Rightarrow> bool" where
  "qualifying files k \<longleftrightarrow>
     (\<exists>f1 \<in> set files. \<exists>f2 \<in> set files.
        file_name f1 \<noteq> file_name f2 \<and> occurs_in k f1 \<and> occurs_in k f2)"

text \<open>
  Invariant of \<open>lineMap\<close> while the files are read: keys are distinct; each value's
  original line is recorded under the value's key; the file names of a value are
  distinct, and each names an input file in which the key occurs.
\<close>

definition has_file :: "source_file list \<Rightarrow> string \<Rightarrow> string \<Rightarrow> bool" where
  "has_file files fname k \<longleftrightarrow> (\<exists>f \<in> set files. file_name f = fname \<and> occurs_in k f)"

definition entry_ok :: "source_file list \<Rightarrow> string \<Rightarrow> line_entry \<Rightarrow> bool" where
  "entry_ok files k entry \<longleftrightarrow>
     line_key (original entry) = Some k
     \<and> distinct (map fst (entry_occurrences entry))
     \<and> (\<forall>fname \<in> fst ` set (entry_occurrences entry). has_file files fname k)"

definition map_ok :: "source_file list \<Rightarrow> (string \<times> line_entry) list \<Rightarrow> bool" where
  "map_ok files lineMap \<longleftrightarrow>
     distinct (map fst lineMap) \<and> (\<forall>(k, entry) \<in> set lineMap. entry_ok files k entry)"

section \<open>Example inputs\<close>



text \<open>One analysis result that lists a pattern twice, and one that lists nothing.\<close>

definition ex_twice :: FileAnalysisResult where
  "ex_twice = \<lparr>filename = ''a.log'', fileSize = 20,
     analysis = \<lparr>patterns = [''Timeout'', ''timeout''], anomalies = [], rootCauses = [], summary = ''''\<rparr>\<rparr>"

definition ex_nothing :: FileAnalysisResult where
  "ex_nothing = \<lparr>filename = ''b.log'', fileSize = 20,
     analysis = \<lparr>patterns = [], anomalies = [], rootCauses = [], summary = ''''\<rparr>\<rparr>"

text \<open>Two log files that share two lines up to the time stamp.\<close>

definition ex_log_a :: source_file where
  "ex_log_a = \<lparr>file_content = ''2024-01-01T00:00:00Z ERROR db down\<newline>2024-01-01T00:00:05Z ERROR db down\<newline>[2024-01-01 00:00:07] INFO retrying pid:41 now'',
               file_name = ''a.log''\<rparr>"

definition ex_log_b :: source_file where
  "ex_log_b = \<lparr>file_content = ''12:00:01 info retrying PID 7 now\<newline>01/02/2024 10:00:00 error DB down [17]\<newline>only in file b here'',
               file_name = ''b.log''\<rparr>"
section \<open>Chunk Splitter: properties\<close>

lemma split_lines_nonempty: "split_lines s \<noteq> []"
  by (induction s) (auto split: list.splits)

lemma join_split_lines: "join_lines (split_lines s) = s"
proof (induction s)
  case Nil
  show ?case by simp
next
  case (Cons c cs)
  show ?case
  proof (cases "c = LF")
    case True
    obtain l ls where "split_lines cs = l # ls"
      using split_lines_nonempty [of cs] by (cases "split_lines cs") auto
    with True Cons show ?thesis by simp
  next
    case False
    obtain l ls where eq: "split_lines cs = l # ls"
      using split_lines_nonempty [of cs] by (cases "split_lines cs") auto
    with False Cons show ?thesis by (cases ls) auto
  qed
qed

lemma join_lines_append:
  "xs \<noteq> [] \<Longrightarrow> ys \<noteq> [] \<Longrightarrow> join_lines (xs @ ys) = join_lines xs @ LF # join_lines ys"
proof (induction xs rule: join_lines.induct)
  case 1
  then show ?case by simp
next
  case (2 x)
  then show ?case by (cases ys) auto
next
  case (3 x y ys')
  then show ?case by simp
qed

lemma join_lines_flatten:
  "ys \<noteq> [] \<Longrightarrow> join_lines (xs @ join_lines ys # zs) = join_lines (xs @ ys @ zs)"
proof -
  assume ne: "ys \<noteq> []"
  have mid: "join_lines (join_lines ys # zs) = join_lines (ys @ zs)"
  proof (cases zs)
    case Nil
    then show ?thesis by simp
  next
    case (Cons z zs')
    then show ?thesis using ne join_lines_append [of ys zs] by simp
  qed
  show ?thesis
  proof (cases xs)
    case Nil
    then show ?thesis using mid by simp
  next
    case (Cons x xs')
    have "join_lines (xs @ join_lines ys # zs) = join_lines xs @ LF # join_lines (join_lines ys # zs)"
      using Cons join_lines_append [of xs "join_lines ys # zs"] by simp
    also have "\<dots> = join_lines xs @ LF # join_lines (ys @ zs)"
      using mid by simp
    also have "\<dots> = join_lines (xs @ ys @ zs)"
      using Cons ne join_lines_append [of xs "ys @ zs"] by simp
    finally show ?thesis .
  qed
qed

lemma length_join_lines: "ls \<noteq> [] \<Longrightarrow> length (join_lines ls) + 1 = size_count ls"
  by (induction ls rule: join_lines.induct) (auto simp: size_count_def)

lemma split_loop_snoc:
  "split_loop S L st i (xs @ [x]) = split_step S L (split_loop S L st i xs) (i + length xs) x"
  by (induction xs arbitrary: st i) auto


lemma contiguous_snoc:
  "contiguous n cs m \<Longrightarrow> start (lineRange c) = m \<Longrightarrow> m \<le> endLine (lineRange c)
   \<Longrightarrow> contiguous n (cs @ [c]) (endLine (lineRange c) + 1)"
  by (induction cs arbitrary: n) auto

lemma contiguous_le: "contiguous n cs m \<Longrightarrow> n \<le> m"
proof (induction cs arbitrary: n)
  case Nil
  then show ?case by simp
next
  case (Cons c cs)
  from Cons.prems have "n \<le> endLine (lineRange c)"
    and "contiguous (endLine (lineRange c) + 1) cs m" by simp_all
  with Cons.IH [of "endLine (lineRange c) + 1"] show ?case by simp
qed

lemma contiguous_start_ge: "contiguous n cs m \<Longrightarrow> c \<in> set cs \<Longrightarrow> n \<le> start (lineRange c)"
proof (induction cs arbitrary: n)
  case Nil
  then show ?case by simp
next
  case (Cons a cs)
  then show ?case by (auto dest!: Cons.IH)
qed

lemma lines_of_range_snoc:
  "1 \<le> a \<Longrightarrow> b \<le> length xs \<Longrightarrow> lines_of_range (xs @ [x]) a b = lines_of_range xs a b"
  by (simp add: lines_of_range_def)

lemma size_count_snoc: "size_count (g @ [x]) = size_count g + (length x + 1)"
  by (simp add: size_count_def)

lemma join_lines_snoc_cong:
  assumes "join_lines A = join_lines B" and "A = [] \<longleftrightarrow> B = []"
  shows "join_lines (A @ [x]) = join_lines (B @ [x])"
proof (cases "A = []")
  case True
  with assms show ?thesis by simp
next
  case False
  with assms have "B \<noteq> []" by simp
  with False assms(1) show ?thesis by (simp add: join_lines_append)
qed

lemma split_inv_init: "split_inv [] split_init"
  by (simp add: split_inv_def split_init_def size_count_def)

lemma split_inv_step:
  assumes inv: "split_inv xs st"
  shows "split_inv (xs @ [x]) (split_step S L st (length xs) x)"
proof -
  let ?cur = "currentChunk st" and ?csl = "chunkStartLine st"
  from inv have csl: "?csl \<le> length xs" and cur: "?cur = drop ?csl xs"
    and sz: "currentSize st = size_count ?cur"
    and cont: "contiguous 1 (chunks st) (?csl + 1)"
    and ne: "xs \<noteq> [] \<longrightarrow> ?cur \<noteq> []"
    and jn: "join_lines (map content (chunks st) @ ?cur) = join_lines xs"
    and ch: "\<forall>c \<in> set (chunks st).
            1 \<le> start (lineRange c) \<and> endLine (lineRange c) \<le> ?csl
            \<and> content c = join_lines (lines_of_range xs (start (lineRange c)) (endLine (lineRange c)))"
    unfolding split_inv_def by blast+
  have emp: "(map content (chunks st) @ ?cur = []) \<longleftrightarrow> (xs = [])"
    using ne cur csl cont by (cases "chunks st") (auto dest: contiguous_le)
  have jn': "join_lines ((map content (chunks st) @ ?cur) @ [x]) = join_lines (xs @ [x])"
    using jn emp by (rule join_lines_snoc_cong)
  show ?thesis
  proof (cases "(currentSize st + (length x + 1) > S \<or> length ?cur \<ge> L) \<and> length ?cur > 0")
    case True
    then have cne: "?cur \<noteq> []" by auto
    let ?c = "\<lparr>content = join_lines ?cur, lineRange = \<lparr>start = ?csl + 1, endLine = length xs\<rparr>\<rparr>"
    have st': "split_step S L st (length xs) x =
      \<lparr>chunks = chunks st @ [?c], currentChunk = [x], currentSize = length x + 1, chunkStartLine = length xs\<rparr>"
      using True by (simp add: split_step_def Let_def)
    have lt: "?csl < length xs" using cne cur by auto
    have c1: "contiguous 1 (chunks st @ [?c]) (length xs + 1)"
      using contiguous_snoc [OF cont, of ?c] lt by simp
    have c2: "join_lines (map content (chunks st @ [?c]) @ [x]) = join_lines (xs @ [x])"
      using join_lines_flatten [OF cne, of "map content (chunks st)" "[x]"] jn' by simp
    have c3: "lines_of_range (xs @ [x]) (?csl + 1) (length xs) = ?cur"
      using cur lt by (simp add: lines_of_range_def)
    have c4: "\<forall>c \<in> set (chunks st @ [?c]).
            1 \<le> start (lineRange c) \<and> endLine (lineRange c) \<le> length xs
            \<and> content c = join_lines (lines_of_range (xs @ [x]) (start (lineRange c)) (endLine (lineRange c)))"
      using ch csl c3 by (auto simp: lines_of_range_snoc)
    show ?thesis
      unfolding st' split_inv_def using c1 c2 c4 by (simp add: size_count_def)
  next
    case False
    have st': "split_step S L st (length xs) x =
      \<lparr>chunks = chunks st, currentChunk = ?cur @ [x], currentSize = currentSize st + (length x + 1),
        chunkStartLine = ?csl\<rparr>"
      using False by (simp add: split_step_def Let_def)
    have c4: "\<forall>c \<in> set (chunks st).
            1 \<le> start (lineRange c) \<and> endLine (lineRange c) \<le> ?csl
            \<and> content c = join_lines (lines_of_range (xs @ [x]) (start (lineRange c)) (endLine (lineRange c)))"
      using ch csl by (auto simp: lines_of_range_snoc)
    show ?thesis
      unfolding st' split_inv_def using csl cur sz cont jn' c4 by (simp add: size_count_snoc)
  qed
qed

lemma split_inv_loop: "split_inv xs (split_loop S L split_init 0 xs)"
proof (induction xs rule: rev_induct)
  case Nil
  show ?case by (simp add: split_inv_init)
next
  case (snoc x xs)
  then show ?case using split_inv_step [of xs _ x S L] by (simp add: split_loop_snoc)
qed


lemma group_ok_single: "0 < L \<Longrightarrow> group_ok S L [x]"
  by (auto simp: group_ok_def size_count_def)

lemma bound_inv_init: "bound_inv S L [] split_init"
  by (simp add: bound_inv_def split_init_def)

lemma bound_inv_step:
  assumes L: "0 < L" and inv: "split_inv xs st" and bnd: "bound_inv S L xs st"
  shows "bound_inv S L (xs @ [x]) (split_step S L st (length xs) x)"
proof -
  let ?cur = "currentChunk st" and ?csl = "chunkStartLine st"
  from inv have csl: "?csl \<le> length xs" and cur: "?cur = drop ?csl xs"
    and sz: "currentSize st = size_count ?cur"
    and ch: "\<forall>c \<in> set (chunks st).
            1 \<le> start (lineRange c) \<and> endLine (lineRange c) \<le> ?csl
            \<and> content c = join_lines (lines_of_range xs (start (lineRange c)) (endLine (lineRange c)))"
    unfolding split_inv_def by blast+
  from bnd have old: "\<forall>c \<in> set (chunks st).
        group_ok S L (lines_of_range xs (start (lineRange c)) (endLine (lineRange c)))"
    and gcur: "?cur \<noteq> [] \<longrightarrow> group_ok S L ?cur"
    unfolding bound_inv_def by blast+
  have old': "\<forall>c \<in> set (chunks st).
        group_ok S L (lines_of_range (xs @ [x]) (start (lineRange c)) (endLine (lineRange c)))"
    using old ch csl by (auto simp: lines_of_range_snoc)
  show ?thesis
  proof (cases "(currentSize st + (length x + 1) > S \<or> length ?cur \<ge> L) \<and> length ?cur > 0")
    case True
    then have cne: "?cur \<noteq> []" by auto
    let ?c = "\<lparr>content = join_lines ?cur, lineRange = \<lparr>start = ?csl + 1, endLine = length xs\<rparr>\<rparr>"
    have st': "split_step S L st (length xs) x =
      \<lparr>chunks = chunks st @ [?c], currentChunk = [x], currentSize = length x + 1, chunkStartLine = length xs\<rparr>"
      using True by (simp add: split_step_def Let_def)
    have lt: "?csl < length xs" using cne cur by auto
    have c3: "lines_of_range (xs @ [x]) (?csl + 1) (length xs) = ?cur"
      using cur lt by (simp add: lines_of_range_def)
    show ?thesis
      unfolding st' bound_inv_def using old' c3 gcur cne group_ok_single [OF L] by simp
  next
    case False
    have st': "split_step S L st (length xs) x =
      \<lparr>chunks = chunks st, currentChunk = ?cur @ [x], currentSize = currentSize st + (length x + 1),
        chunkStartLine = ?csl\<rparr>"
      using False by (simp add: split_step_def Let_def)
    have "group_ok S L (?cur @ [x])"
    proof (cases "?cur = []")
      case True
      then show ?thesis using group_ok_single [OF L] by simp
    next
      case ne: False
      with False sz have "size_count ?cur + (length x + 1) \<le> S" and "length ?cur < L"
        by auto
      then show ?thesis by (simp add: group_ok_def size_count_snoc)
    qed
    then show ?thesis
      unfolding st' bound_inv_def using old' by simp
  qed
qed

lemma bound_inv_loop:
  "0 < L \<Longrightarrow> bound_inv S L xs (split_loop S L split_init 0 xs)"
proof (induction xs rule: rev_induct)
  case Nil
  show ?case by (simp add: bound_inv_init)
next
  case (snoc x xs)
  then show ?case
    using bound_inv_step [of L xs "split_loop S L split_init 0 xs" S x] split_inv_loop [of xs S L]
    by (simp add: split_loop_snoc)
qed

text \<open>What the loop invariant gives for the returned chunk list.\<close>

lemma split_result_contiguous:
  "contiguous 1 (splitIntoChunksWith S L lines) (length lines + 1)"
proof -
  let ?st = "split_loop S L split_init 0 lines"
  have inv: "split_inv lines ?st" by (rule split_inv_loop)
  then have csl: "chunkStartLine ?st \<le> length lines"
    and cur: "currentChunk ?st = drop (chunkStartLine ?st) lines"
    and cont: "contiguous 1 (chunks ?st) (chunkStartLine ?st + 1)"
    unfolding split_inv_def by blast+
  show ?thesis
  proof (cases "currentChunk ?st = []")
    case True
    with cur csl have "chunkStartLine ?st = length lines" by simp
    with True cont show ?thesis by (simp add: splitIntoChunksWith_def Let_def)
  next
    case False
    with cur have lt: "chunkStartLine ?st < length lines" by auto
    let ?c = "\<lparr>content = join_lines (currentChunk ?st),
               lineRange = \<lparr>start = chunkStartLine ?st + 1, endLine = length lines\<rparr>\<rparr>"
    have "contiguous 1 (chunks ?st @ [?c]) (length lines + 1)"
      using contiguous_snoc [OF cont, of ?c] lt by simp
    with False show ?thesis by (simp add: splitIntoChunksWith_def Let_def)
  qed
qed

lemma split_result_join:
  "join_lines (map content (splitIntoChunksWith S L lines)) = join_lines lines"
proof -
  let ?st = "split_loop S L split_init 0 lines"
  have inv: "split_inv lines ?st" by (rule split_inv_loop)
  then have jn: "join_lines (map content (chunks ?st) @ currentChunk ?st) = join_lines lines"
    unfolding split_inv_def by blast
  show ?thesis
  proof (cases "currentChunk ?st = []")
    case True
    with jn show ?thesis by (simp add: splitIntoChunksWith_def Let_def)
  next
    case False
    then show ?thesis
      using jn join_lines_flatten [OF False, of "map content (chunks ?st)" "[]"]
      by (simp add: splitIntoChunksWith_def Let_def)
  qed
qed

lemma split_result_lines:
  assumes "c \<in> set (splitIntoChunksWith S L lines)"
  shows "1 \<le> start (lineRange c) \<and> endLine (lineRange c) \<le> length lines
    \<and> content c = join_lines (lines_of_range lines (start (lineRange c)) (endLine (lineRange c)))"
proof -
  let ?st = "split_loop S L split_init 0 lines"
  have inv: "split_inv lines ?st" by (rule split_inv_loop)
  then have csl: "chunkStartLine ?st \<le> length lines"
    and cur: "currentChunk ?st = drop (chunkStartLine ?st) lines"
    and ch: "\<forall>c \<in> set (chunks ?st).
            1 \<le> start (lineRange c) \<and> endLine (lineRange c) \<le> chunkStartLine ?st
            \<and> content c = join_lines (lines_of_range lines (start (lineRange c)) (endLine (lineRange c)))"
    unfolding split_inv_def by blast+
  have fin: "lines_of_range lines (chunkStartLine ?st + 1) (length lines) = currentChunk ?st"
    using cur csl by (simp add: lines_of_range_def)
  show ?thesis
  proof (cases "c \<in> set (chunks ?st)")
    case True
    with ch csl show ?thesis by auto
  next
    case False
    with assms have "currentChunk ?st \<noteq> []"
      and "c = \<lparr>content = join_lines (currentChunk ?st),
               lineRange = \<lparr>start = chunkStartLine ?st + 1, endLine = length lines\<rparr>\<rparr>"
      by (auto simp: splitIntoChunksWith_def Let_def split: if_splits)
    then show ?thesis using fin by simp
  qed
qed

lemma split_result_bound:
  assumes L: "0 < L" and c: "c \<in> set (splitIntoChunksWith S L lines)"
  shows "group_ok S L (lines_of_range lines (start (lineRange c)) (endLine (lineRange c)))"
proof -
  let ?st = "split_loop S L split_init 0 lines"
  have inv: "split_inv lines ?st" by (rule split_inv_loop)
  then have csl: "chunkStartLine ?st \<le> length lines"
    and cur: "currentChunk ?st = drop (chunkStartLine ?st) lines"
    unfolding split_inv_def by blast+
  have bnd: "bound_inv S L lines ?st" using L by (rule bound_inv_loop)
  have fin: "lines_of_range lines (chunkStartLine ?st + 1) (length lines) = currentChunk ?st"
    using cur csl by (simp add: lines_of_range_def)
  show ?thesis
  proof (cases "c \<in> set (chunks ?st)")
    case True
    with bnd show ?thesis by (simp add: bound_inv_def)
  next
    case False
    with c have ne: "currentChunk ?st \<noteq> []"
      and "c = \<lparr>content = join_lines (currentChunk ?st),
               lineRange = \<lparr>start = chunkStartLine ?st + 1, endLine = length lines\<rparr>\<rparr>"
      by (auto simp: splitIntoChunksWith_def Let_def split: if_splits)
    then show ?thesis using fin bnd by (simp add: bound_inv_def)
  qed
qed

text \<open>Reading \<open>contiguous\<close> index by index.\<close>

lemma contiguous_hd_last:
  "contiguous n cs m \<Longrightarrow> cs \<noteq> [] \<Longrightarrow>
     start (lineRange (hd cs)) = n \<and> endLine (lineRange (last cs)) + 1 = m"
  by (induction cs arbitrary: n) auto

lemma contiguous_adjacent:
  "contiguous n cs m \<Longrightarrow> Suc i < length cs \<Longrightarrow>
     start (lineRange (cs ! Suc i)) = endLine (lineRange (cs ! i)) + 1"
proof (induction cs arbitrary: n i)
  case Nil
  then show ?case by simp
next
  case (Cons c cs)
  show ?case
  proof (cases i)
    case 0
    with Cons.prems show ?thesis by (cases cs) auto
  next
    case (Suc j)
    with Cons.prems Cons.IH [of "endLine (lineRange c) + 1" j] show ?thesis by simp
  qed
qed

lemma contiguous_nonempty_range:
  "contiguous n cs m \<Longrightarrow> c \<in> set cs \<Longrightarrow> start (lineRange c) \<le> endLine (lineRange c)"
  by (induction cs arbitrary: n) auto

lemma contiguous_cover:
  "contiguous n cs m \<Longrightarrow> n \<le> k \<Longrightarrow> k < m \<Longrightarrow>
     \<exists>!i. i < length cs \<and> start (lineRange (cs ! i)) \<le> k \<and> k \<le> endLine (lineRange (cs ! i))"
proof (induction cs arbitrary: n)
  case Nil
  then show ?case by simp
next
  case (Cons c cs)
  from Cons.prems have sc: "start (lineRange c) = n" and ne: "n \<le> endLine (lineRange c)"
    and rest: "contiguous (endLine (lineRange c) + 1) cs m" by simp_all
  show ?case
  proof (cases "k \<le> endLine (lineRange c)")
    case True
    have later: "\<not> (start (lineRange (cs ! j)) \<le> k)" if "j < length cs" for j
      using contiguous_start_ge [OF rest, of "cs ! j"] that True by auto
    show ?thesis
    proof (rule ex1I [of _ 0])
      show "0 < length (c # cs) \<and> start (lineRange ((c # cs) ! 0)) \<le> k
            \<and> k \<le> endLine (lineRange ((c # cs) ! 0))"
        using sc Cons.prems(2) True by simp
    next
      fix i
      assume "i < length (c # cs) \<and> start (lineRange ((c # cs) ! i)) \<le> k
            \<and> k \<le> endLine (lineRange ((c # cs) ! i))"
      then show "i = 0" using later by (cases i) auto
    qed
  next
    case False
    then have "endLine (lineRange c) + 1 \<le> k" by simp
    from Cons.IH [OF rest this Cons.prems(3)]
    obtain j where j: "j < length cs" "start (lineRange (cs ! j)) \<le> k" "k \<le> endLine (lineRange (cs ! j))"
      and uniq: "\<And>j'. j' < length cs \<and> start (lineRange (cs ! j')) \<le> k
                  \<and> k \<le> endLine (lineRange (cs ! j')) \<Longrightarrow> j' = j"
      by blast
    show ?thesis
    proof (rule ex1I [of _ "Suc j"])
      show "Suc j < length (c # cs) \<and> start (lineRange ((c # cs) ! Suc j)) \<le> k
            \<and> k \<le> endLine (lineRange ((c # cs) ! Suc j))"
        using j by simp
    next
      fix i
      assume a: "i < length (c # cs) \<and> start (lineRange ((c # cs) ! i)) \<le> k
            \<and> k \<le> endLine (lineRange ((c # cs) ! i))"
      show "i = Suc j"
      proof (cases i)
        case 0
        with a False show ?thesis by simp
      next
        case (Suc j')
        with a uniq [of j'] show ?thesis by simp
      qed
    qed
  qed
qed


lemma length_lines_of_range:
  "1 \<le> a \<Longrightarrow> b \<le> length lines \<Longrightarrow> length (lines_of_range lines a b) = b + 1 - a"
  by (auto simp: lines_of_range_def)

text \<open>
  Claim C1. For every input text and all thresholds, the chunks emitted for the lines of
  the text, rejoined with line-feed in emission order, give the text back; there is at
  least one chunk, the first starts at line 1, each next chunk starts one line after the
  previous one ends, the last ends at the number of lines, every chunk holds the lines of
  its own range, and every line number lies in the range of exactly one chunk.
\<close>

theorem chunking_exactness:
  "(let lines = split_lines input; cs = splitIntoChunksWith S L lines in
      join_lines (map content cs) = input
      \<and> cs \<noteq> []
      \<and> start (lineRange (hd cs)) = 1
      \<and> endLine (lineRange (last cs)) = length lines
      \<and> (\<forall>i. Suc i < length cs \<longrightarrow>
            start (lineRange (cs ! Suc i)) = endLine (lineRange (cs ! i)) + 1)
      \<and> (\<forall>c \<in> set cs. start (lineRange c) \<le> endLine (lineRange c)
            \<and> content c = join_lines (lines_of_range lines (start (lineRange c)) (endLine (lineRange c))))
      \<and> (\<forall>n. 1 \<le> n \<and> n \<le> length lines \<longrightarrow>
            (\<exists>!i. i < length cs \<and> start (lineRange (cs ! i)) \<le> n \<and> n \<le> endLine (lineRange (cs ! i)))))"
proof -
  let ?lines = "split_lines input"
  let ?cs = "splitIntoChunksWith S L ?lines"
  have cont: "contiguous 1 ?cs (length ?lines + 1)" by (rule split_result_contiguous)
  have ne: "?cs \<noteq> []"
  proof
    assume "?cs = []"
    with cont have "length ?lines = 0" by simp
    then show False using split_lines_nonempty [of input] by simp
  qed
  have a: "join_lines (map content ?cs) = input"
    by (simp add: split_result_join join_split_lines)
  have b: "start (lineRange (hd ?cs)) = 1 \<and> endLine (lineRange (last ?cs)) = length ?lines"
    using contiguous_hd_last [OF cont ne] by simp
  have c: "\<forall>i. Suc i < length ?cs \<longrightarrow>
            start (lineRange (?cs ! Suc i)) = endLine (lineRange (?cs ! i)) + 1"
    using contiguous_adjacent [OF cont] by blast
  have d: "\<forall>c \<in> set ?cs. start (lineRange c) \<le> endLine (lineRange c)
            \<and> content c = join_lines (lines_of_range ?lines (start (lineRange c)) (endLine (lineRange c)))"
    using contiguous_nonempty_range [OF cont] split_result_lines [of _ S L ?lines] by blast
  have e: "\<forall>n. 1 \<le> n \<and> n \<le> length ?lines \<longrightarrow>
            (\<exists>!i. i < length ?cs \<and> start (lineRange (?cs ! i)) \<le> n \<and> n \<le> endLine (lineRange (?cs ! i)))"
  proof (intro allI impI)
    fix n assume "1 \<le> n \<and> n \<le> length ?lines"
    then have "1 \<le> n" "n < length ?lines + 1" by simp_all
    then show "\<exists>!i. i < length ?cs \<and> start (lineRange (?cs ! i)) \<le> n \<and> n \<le> endLine (lineRange (?cs ! i))"
      by (rule contiguous_cover [OF cont])
  qed
  show ?thesis unfolding Let_def using a ne b c d e by blast
qed




text \<open>
  Claim C7. For positive thresholds, every emitted chunk holds the lines of its range,
  at most \<open>L\<close> of them, and its size (each line counted as its length plus one, which
  is the length of the content plus one) is at most \<open>S\<close>, unless the chunk is one single
  line whose own size exceeds \<open>S\<close>.
\<close>

theorem chunking_bound:
  assumes "0 < S" and "0 < L"
    and "c \<in> set (splitIntoChunksWith S L lines)"
  shows "(let g = lines_of_range lines (start (lineRange c)) (endLine (lineRange c)) in
      content c = join_lines g
      \<and> length g = endLine (lineRange c) + 1 - start (lineRange c)
      \<and> length g \<le> L
      \<and> (size_count g \<le> S \<and> length (content c) + 1 \<le> S
          \<or> (\<exists>line. g = [line] \<and> content c = line \<and> S < length line + 1)))"
proof -
  let ?g = "lines_of_range lines (start (lineRange c)) (endLine (lineRange c))"
  have cont: "contiguous 1 (splitIntoChunksWith S L lines) (length lines + 1)"
    by (rule split_result_contiguous)
  have ol: "1 \<le> start (lineRange c)" "endLine (lineRange c) \<le> length lines"
    and cg: "content c = join_lines ?g"
    using split_result_lines [OF assms(3)] by simp_all
  have len: "length ?g = endLine (lineRange c) + 1 - start (lineRange c)"
    using ol by (rule length_lines_of_range)
  have "start (lineRange c) \<le> endLine (lineRange c)"
    using contiguous_nonempty_range [OF cont assms(3)] .
  with len have gne: "?g \<noteq> []" by auto
  have ok: "group_ok S L ?g" using assms(2,3) by (rule split_result_bound)
  have sz: "length (content c) + 1 = size_count ?g"
    using length_join_lines [OF gne] cg by simp
  show ?thesis
    unfolding Let_def using cg len ok sz by (auto simp: group_ok_def)
qed



lemmas split_eval = splitIntoChunksWith_def split_step_def split_init_def Let_def

theorem chunking_exactness_witness:
  "join_lines (map content (splitIntoChunksWith 6 2 (split_lines ''ab\<newline>cd\<newline>ef''))) = ''ab\<newline>cd\<newline>ef''
   \<and> Suc 0 < length (splitIntoChunksWith 6 2 (split_lines ''ab\<newline>cd\<newline>ef''))
   \<and> start (lineRange (splitIntoChunksWith 6 2 (split_lines ''ab\<newline>cd\<newline>ef'') ! Suc 0))
       = endLine (lineRange (splitIntoChunksWith 6 2 (split_lines ''ab\<newline>cd\<newline>ef'') ! 0)) + 1
   \<and> endLine (lineRange (last (splitIntoChunksWith 6 2 (split_lines ''ab\<newline>cd\<newline>ef'')))) = 3"
proof -
  let ?cs = "splitIntoChunksWith 6 2 (split_lines ''ab\<newline>cd\<newline>ef'')"
  note T = chunking_exactness [of "''ab\<newline>cd\<newline>ef''" 6 2, unfolded Let_def]
  have len: "Suc 0 < length ?cs"
    by (simp add: split_eval)
  have lines: "length (split_lines ''ab\<newline>cd\<newline>ef'') = 3"
    by simp
  from T have j: "join_lines (map content ?cs) = ''ab\<newline>cd\<newline>ef''"
    by (rule conjunct1)
  from T have adj: "\<forall>i. Suc i < length ?cs \<longrightarrow>
      start (lineRange (?cs ! Suc i)) = endLine (lineRange (?cs ! i)) + 1"
    by blast
  from T have "endLine (lineRange (last ?cs)) = length (split_lines ''ab\<newline>cd\<newline>ef'')"
    by blast
  with lines have la: "endLine (lineRange (last ?cs)) = 3" by (simp only:)
  from adj len have "start (lineRange (?cs ! Suc 0)) = endLine (lineRange (?cs ! 0)) + 1"
    by blast
  with j len la show ?thesis by blast
qed

theorem chunking_bound_witness:
  "(0::nat) < 4 \<and> (0::nat) < 5
   \<and> \<lparr>content = ''cdefgh'', lineRange = \<lparr>start = 2, endLine = 2\<rparr>\<rparr>
        \<in> set (splitIntoChunksWith 4 5 (split_lines ''ab\<newline>cdefgh\<newline>ef''))
   \<and> lines_of_range (split_lines ''ab\<newline>cdefgh\<newline>ef'') 2 2 = [''cdefgh'']
   \<and> length [''cdefgh''] \<le> (5::nat)
   \<and> \<not> size_count [''cdefgh''] \<le> 4
   \<and> (4::nat) < length ''cdefgh'' + 1"
proof -
  have s: "(0::nat) < 4" and l: "(0::nat) < 5" by simp_all
  have c: "\<lparr>content = ''cdefgh'', lineRange = \<lparr>start = 2, endLine = 2\<rparr>\<rparr>
        \<in> set (splitIntoChunksWith 4 5 (split_lines ''ab\<newline>cdefgh\<newline>ef''))"
    by (simp add: split_eval)
  have g: "lines_of_range (split_lines ''ab\<newline>cdefgh\<newline>ef'') 2 2 = [''cdefgh'']"
    by (simp add: lines_of_range_def)
  show ?thesis
    using chunking_bound [OF s l c] s l c g by (simp add: Let_def size_count_def)
qed

text \<open>
  Claim C4 as stated fails: the line-split of the empty text is the one-element sequence
  holding the empty line, and the splitter emits one chunk for it.
\<close>

theorem empty_input_counterexample:
  "splitIntoChunks (split_lines '''') =
     [\<lparr>content = '''', lineRange = \<lparr>start = 1, endLine = 1\<rparr>\<rparr>]"
  by (simp add: splitIntoChunks_def split_eval)

text \<open>
  Claim C4, amended. Applied to an empty sequence of lines the splitter emits zero
  chunks; applied to the line-split of the empty text it emits exactly one chunk, with
  empty content and line range 1 to 1.
\<close>

theorem empty_lines_zero_chunks:
  "splitIntoChunksWith S L [] = []
   \<and> splitIntoChunksWith S L (split_lines '''') =
       [\<lparr>content = '''', lineRange = \<lparr>start = 1, endLine = 1\<rparr>\<rparr>]"
  by (simp add: split_eval)

theorem empty_lines_zero_chunks_witness:
  "splitIntoChunksWith 512000 5000 [] = []
   \<and> splitIntoChunksWith 512000 5000 (split_lines '''') =
       [\<lparr>content = '''', lineRange = \<lparr>start = 1, endLine = 1\<rparr>\<rparr>]"
  using empty_lines_zero_chunks [of 512000 5000] .


section \<open>Similarity fallback: properties\<close>




lemma keys_count_item: "fst ` set (count_item p counts) = insert (toLowerCase p) (fst ` set counts)"
  using dom_update [of "toLowerCase p" _ counts]
  by (simp add: count_item_def Let_def dom_map_of_conv_image_fst)

lemma keys_fold_count_item:
  "fst ` set (fold count_item ps counts) = toLowerCase ` set ps \<union> fst ` set counts"
  by (induction ps arbitrary: counts) (auto simp: keys_count_item)

lemma distinct_count_item: "distinct (map fst counts) \<Longrightarrow> distinct (map fst (count_item p counts))"
  by (simp add: count_item_def Let_def distinct_update)

lemma distinct_fold_count_item:
  "distinct (map fst counts) \<Longrightarrow> distinct (map fst (fold count_item ps counts))"
  by (induction ps arbitrary: counts) (auto simp: distinct_count_item)

lemma get_count_count_item:
  "get_count (count_item p counts) k = get_count counts k + (if toLowerCase p = k then 1 else 0)"
  by (auto simp: count_item_def get_count_def Let_def update_conv')

lemma get_count_fold:
  "get_count (fold count_item ps counts) k = get_count counts k + count_list (map toLowerCase ps) k"
  by (induction ps arbitrary: counts) (auto simp: get_count_count_item)





lemma at_least_iff:
  assumes "distinct (map fst counts)"
  shows "k \<in> set (at_least n counts) \<longleftrightarrow> k \<in> fst ` set counts \<and> n \<le> get_count counts k"
proof -
  have eq: "(k, m) \<in> set counts \<longleftrightarrow> map_of counts k = Some m" for m
    using assms by (simp add: map_of_eq_Some_iff)
  show ?thesis
  proof
    assume "k \<in> set (at_least n counts)"
    then obtain m where "(k, m) \<in> set counts" "n \<le> m"
      by (auto simp: at_least_def)
    then show "k \<in> fst ` set counts \<and> n \<le> get_count counts k"
      using eq [of m] by (force simp: get_count_def)
  next
    assume a: "k \<in> fst ` set counts \<and> n \<le> get_count counts k"
    then obtain m where m: "(k, m) \<in> set counts" by auto
    with eq [of m] a have "n \<le> m" by (simp add: get_count_def)
    with m show "k \<in> set (at_least n counts)"
      by (force simp: at_least_def)
  qed
qed

text \<open>What the fallback retains: the keys that were counted at least twice over all files.\<close>

lemma shared_iff:
  "k \<in> set (at_least 2 (fold count_item its [])) \<longleftrightarrow> 2 \<le> count_list (map toLowerCase its) k"
proof -
  have d: "distinct (map fst (fold count_item its []))"
    by (rule distinct_fold_count_item) simp
  have "k \<in> set (at_least 2 (fold count_item its []))
     \<longleftrightarrow> k \<in> toLowerCase ` set its \<and> 2 \<le> count_list (map toLowerCase its) k"
    using get_count_fold [of its "[]" k]
    by (simp add: at_least_iff [OF d] keys_fold_count_item get_count_def)
  also have "\<dots> \<longleftrightarrow> 2 \<le> count_list (map toLowerCase its) k"
    using count_list_0_iff [of "map toLowerCase its" k] by auto
  finally show ?thesis .
qed







text \<open>
  The half of claim C6 that the code does meet: an item that occurs, up to case, in two
  or more files is retained.
\<close>

lemma files_with_le_count:
  "files_with sel k frs \<le> count_list (map toLowerCase (all_items sel frs)) k"
proof (induction frs)
  case Nil
  show ?case by (simp add: files_with_def all_items_def)
next
  case (Cons fr frs)
  have "k \<in> set (map toLowerCase (sel (analysis fr))) \<Longrightarrow>
        1 \<le> count_list (map toLowerCase (sel (analysis fr))) k"
    using count_list_0_iff [of "map toLowerCase (sel (analysis fr))" k] by auto
  with Cons show ?case
    by (auto simp: files_with_def all_items_def)
qed

lemma in_two_files_is_shared:
  assumes "2 \<le> files_with sel k frs"
  shows "k \<in> set (at_least 2 (fold count_item (all_items sel frs) []))"
  using assms files_with_le_count [of sel k frs] by (simp add: shared_iff)


text \<open>
  Claim C6 fails on the code. The fallback counts every occurrence of an item, also a
  second one in the same file, where its comment says \<open>Appears in at least 2 files\<close>:
  a pattern listed twice by one file and by no other file is returned as shared.
\<close>

theorem fallback_counts_repeats_in_one_file:
  "sharedPatterns (findSimilaritiesManually [ex_twice, ex_nothing]) = [''timeout'']
   \<and> files_with patterns ''timeout'' [ex_twice, ex_nothing] = 1
   \<and> correlations (findSimilaritiesManually [ex_twice, ex_nothing]) = []"
  by code_simp

section \<open>List-Item Extractor: the final filter\<close>

lemma startsWith_prefix: "startsWith s p \<longleftrightarrow> prefix p s"
  by (induction s p rule: startsWith.induct) auto

lemma str_includes_sublist: "str_includes s p \<longleftrightarrow> sublist p s"
proof (induction s)
  case Nil
  then show ?case by (cases p) auto
next
  case (Cons c cs)
  then show ?case by (auto simp: startsWith_prefix sublist_Cons_right)
qed

lemma bracketed_wholly: "bracketed item \<longleftrightarrow> wholly_bracketed item"
proof
  assume "bracketed item"
  then obtain cs where item: "item = CHR ''['' # cs" and cs: "cs \<noteq> []" "last cs = CHR '']''"
    "butlast cs \<noteq> []" "list_all (\<lambda>x. \<not> is_line_terminator x) (butlast cs)"
    by (auto simp: bracketed_def split: list.splits)
  from cs(1,2) have "cs = butlast cs @ '']''"
    using append_butlast_last_id [of cs] by simp
  with item have "item = ''['' @ butlast cs @ '']''" by simp
  with cs(3,4) show "wholly_bracketed item"
    unfolding wholly_bracketed_def list_all_iff by blast
next
  assume "wholly_bracketed item"
  then obtain mid where "item = ''['' @ mid @ '']''" "mid \<noteq> []"
    "\<forall>c. c \<in> set mid \<longrightarrow> \<not> is_line_terminator c"
    unfolding wholly_bracketed_def by blast
  then show "bracketed item"
    by (simp add: bracketed_def list_all_iff butlast_append)
qed

text \<open>
  Claim C5, amended. The final filter keeps an item exactly when it is not empty, does
  not contain \<open>[List\<close>, does not contain \<open>list here\<close> up to case, is not wholly
  bracketed, and does not contain, up to case, any of the negative-result phrases; the
  kept items stay in order. An item that contains such a phrase is removed even when it
  is not equal to it.
\<close>

theorem final_filter_removes_items_containing_phrase:
  "extractListItems section_text =
     filter (\<lambda>item. item \<noteq> []
               \<and> \<not> sublist ''[List'' item
               \<and> \<not> sublist ''list here'' (toLowerCase item)
               \<and> \<not> wholly_bracketed item
               \<and> \<not> (\<exists>phrase. phrase \<in> set negative_phrases \<and> sublist phrase (toLowerCase item)))
       (collectItems section_text)"
proof -
  have eq: "keep_item = (\<lambda>item. item \<noteq> []
           \<and> \<not> sublist ''[List'' item
           \<and> \<not> sublist ''list here'' (toLowerCase item)
           \<and> \<not> wholly_bracketed item
           \<and> \<not> (\<exists>phrase. phrase \<in> set negative_phrases \<and> sublist phrase (toLowerCase item)))"
  proof (rule ext)
    fix item
    show "keep_item item = (item \<noteq> []
           \<and> \<not> sublist ''[List'' item
           \<and> \<not> sublist ''list here'' (toLowerCase item)
           \<and> \<not> wholly_bracketed item
           \<and> \<not> (\<exists>phrase. phrase \<in> set negative_phrases \<and> sublist phrase (toLowerCase item)))"
      unfolding keep_item_def str_includes_sublist bracketed_wholly negative_phrases_def
      by auto
  qed
  show ?thesis unfolding extractListItems_def by (simp only: eq)
qed

text \<open>
  Claim C5 as stated fails: the item \<open>retry none found\<close> is collected, is equal to
  none of the negative-result phrases up to case, meets none of the other grounds for
  removal, and is removed.
\<close>

theorem final_filter_counterexample:
  "collectItems ''- retry none found'' = [''retry none found'']
   \<and> extractListItems ''- retry none found'' = []
   \<and> toLowerCase ''retry none found'' \<notin> set negative_phrases
   \<and> ''retry none found'' \<noteq> []
   \<and> \<not> str_includes ''retry none found'' ''[List''
   \<and> \<not> str_includes (toLowerCase ''retry none found'') ''list here''
   \<and> \<not> bracketed ''retry none found''"
  by code_simp

theorem final_filter_removes_items_containing_phrase_witness:
  "collectItems ''- a\<newline>- retry none found'' = [''a'', ''retry none found'']
   \<and> filter (\<lambda>item. item \<noteq> []
               \<and> \<not> sublist ''[List'' item
               \<and> \<not> sublist ''list here'' (toLowerCase item)
               \<and> \<not> wholly_bracketed item
               \<and> \<not> (\<exists>phrase. phrase \<in> set negative_phrases \<and> sublist phrase (toLowerCase item)))
       (collectItems ''- a\<newline>- retry none found'') = [''a'']
   \<and> sublist ''none found'' (toLowerCase ''retry none found'')"
proof -
  have c: "collectItems ''- a\<newline>- retry none found'' = [''a'', ''retry none found'']"
    by code_simp
  have e: "extractListItems ''- a\<newline>- retry none found'' = [''a'']"
    by code_simp
  have s: "sublist ''none found'' (toLowerCase ''retry none found'')"
    by code_simp
  from final_filter_removes_items_containing_phrase [of "''- a\<newline>- retry none found''"] e
  have "filter (\<lambda>item. item \<noteq> []
               \<and> \<not> sublist ''[List'' item
               \<and> \<not> sublist ''list here'' (toLowerCase item)
               \<and> \<not> wholly_bracketed item
               \<and> \<not> (\<exists>phrase. phrase \<in> set negative_phrases \<and> sublist phrase (toLowerCase item)))
       (collectItems ''- a\<newline>- retry none found'') = [''a'']"
    by (simp only:)
  with c s show ?thesis by blast
qed


section \<open>Section Parser: properties\<close>



lemmas heading_defs = patterns_heading_def anomalies_heading_def rootCauses_heading_def
  summary_heading_def heading_start_def opt_ci_def



text \<open>A heading can only match where a hash stands.\<close>

lemma heading_start_no_hash: "c \<noteq> CHR ''#'' \<Longrightarrow> heading_start (c # x) = None"
  by (simp add: heading_start_def)

lemma heading_no_hash:
  assumes "c \<noteq> CHR ''#''"
  shows "patterns_heading (c # x) = None" "anomalies_heading (c # x) = None"
    "rootCauses_heading (c # x) = None" "summary_heading (c # x) = None"
  using assms
  by (simp_all add: patterns_heading_def anomalies_heading_def rootCauses_heading_def
      summary_heading_def heading_start_no_hash)

lemma heading_Nil:
  "patterns_heading [] = None" "anomalies_heading [] = None"
  "rootCauses_heading [] = None" "summary_heading [] = None"
  by (simp_all add: heading_defs)



lemma regex_search_None_iff:
  "regex_search m s = None \<longleftrightarrow> (\<forall>t. suffix t s \<longrightarrow> m t = None)"
proof (induction s)
  case Nil
  show ?case by simp
next
  case (Cons c cs)
  show ?case
  proof (cases "m (c # cs)")
    case None
    with Cons show ?thesis by (auto simp: suffix_Cons)
  next
    case (Some r)
    then show ?thesis by (auto intro: exI [of _ "c # cs"])
  qed
qed

lemma section_match_None: "section_match h t = None \<longleftrightarrow> h t = None"
  by (simp add: section_match_def)



























text \<open>
  Why the list sections need a body that is not blank: after a heading the greedy
  \<open>\s*\<close> runs over a blank body into the next heading, and the items of the next
  section are taken for this one.
\<close>

lemma blank_body_takes_next_section:
  "parseAnalysisResponse ''## PATTERNS\<newline>\<newline>## ANOMALIES\<newline>- x''
     = \<lparr>patterns = [''x''], anomalies = [''x''], rootCauses = [], summary = ''''\<rparr>
   \<and> parseAnalysisResponse ''## ANOMALIES\<newline>- x\<newline>## PATTERNS\<newline>''
     = \<lparr>patterns = [], anomalies = [''x''], rootCauses = [], summary = ''''\<rparr>"
  by code_simp



text \<open>
  Claim C8. The parser is a total function: the source has no \<open>throw\<close> and every
  operation it uses is defined on all strings, and so is the model, by structural
  recursion. When at no position of the input one of the four headings matches, the
  result is the all-empty record.
\<close>

theorem no_heading_all_empty:
  assumes "\<forall>t. suffix t response \<longrightarrow>
             patterns_heading t = None \<and> anomalies_heading t = None
             \<and> rootCauses_heading t = None \<and> summary_heading t = None"
  shows "parseAnalysisResponse response = \<lparr>patterns = [], anomalies = [], rootCauses = [], summary = ''''\<rparr>"
proof -
  from assms have "regex_search (section_match patterns_heading) response = None"
    "regex_search (section_match anomalies_heading) response = None"
    "regex_search (section_match rootCauses_heading) response = None"
    "regex_search summary_match response = None"
    by (simp_all add: regex_search_None_iff section_match_def summary_match_def)
  then show ?thesis by (simp add: parseAnalysisResponse_def)
qed

lemma no_hash_no_heading:
  assumes "CHR ''#'' \<notin> set response" and "suffix t response"
  shows "patterns_heading t = None \<and> anomalies_heading t = None
         \<and> rootCauses_heading t = None \<and> summary_heading t = None"
proof (cases t)
  case Nil
  then show ?thesis by (simp add: heading_Nil)
next
  case (Cons c x)
  with assms have "c \<noteq> CHR ''#''" by (auto simp: suffix_def)
  with Cons show ?thesis by (simp add: heading_no_hash)
qed

text \<open>A text with hashes, and even a \<open>##\<close> heading, but none of the four labels.\<close>

theorem no_heading_all_empty_witness:
  "parseAnalysisResponse ''# Report\<newline>## NOTES\<newline>- nothing''
     = \<lparr>patterns = [], anomalies = [], rootCauses = [], summary = ''''\<rparr>"
proof -
  have "\<forall>t \<in> set (suffixes ''# Report\<newline>## NOTES\<newline>- nothing'').
             patterns_heading t = None \<and> anomalies_heading t = None
             \<and> rootCauses_heading t = None \<and> summary_heading t = None"
    by code_simp
  then have "\<forall>t. suffix t ''# Report\<newline>## NOTES\<newline>- nothing'' \<longrightarrow>
             patterns_heading t = None \<and> anomalies_heading t = None
             \<and> rootCauses_heading t = None \<and> summary_heading t = None"
    using in_set_suffixes by blast
  then show ?thesis by (rule no_heading_all_empty)
qed

section \<open>Exact-Line Matcher: properties\<close>

subsection \<open>Sorting\<close>

lemma set_insert_by: "set (insert_by cmp x ys) = insert x (set ys)"
  by (induction ys) auto

lemma length_insert_by: "length (insert_by cmp x ys) = Suc (length ys)"
  by (induction ys) auto

lemma set_sort_by: "set (sort_by cmp xs) = set xs"
  by (induction xs) (auto simp: sort_by_def set_insert_by)

lemma length_sort_by: "length (sort_by cmp xs) = length xs"
  by (induction xs) (auto simp: sort_by_def length_insert_by)

lemma sorted_insert_by:
  assumes trans: "\<And>a b c. cmp a b \<le> 0 \<Longrightarrow> cmp b c \<le> 0 \<Longrightarrow> cmp a c \<le> 0"
    and total: "\<And>a b. \<not> cmp a b \<le> 0 \<Longrightarrow> cmp b a \<le> 0"
    and "sorted_wrt (\<lambda>a b. cmp a b \<le> 0) ys"
  shows "sorted_wrt (\<lambda>a b. cmp a b \<le> 0) (insert_by cmp x ys)"
  using assms(3)
proof (induction ys)
  case Nil
  show ?case by simp
next
  case (Cons y ys)
  from Cons.prems have yz: "\<forall>z \<in> set ys. cmp y z \<le> 0"
    and sys: "sorted_wrt (\<lambda>a b. cmp a b \<le> 0) ys" by simp_all
  show ?case
  proof (cases "cmp x y \<le> 0")
    case True
    have "\<forall>z \<in> set ys. cmp x z \<le> 0"
    proof
      fix z assume "z \<in> set ys"
      with yz have "cmp y z \<le> 0" by blast
      with True show "cmp x z \<le> 0" by (rule trans)
    qed
    with True yz sys show ?thesis by simp
  next
    case False
    then have yx: "cmp y x \<le> 0" by (rule total)
    have "sorted_wrt (\<lambda>a b. cmp a b \<le> 0) (insert_by cmp x ys)"
      using sys by (rule Cons.IH)
    with False yx yz show ?thesis by (simp add: set_insert_by)
  qed
qed

lemma sorted_sort_by:
  assumes trans: "\<And>a b c. cmp a b \<le> 0 \<Longrightarrow> cmp b c \<le> 0 \<Longrightarrow> cmp a c \<le> 0"
    and total: "\<And>a b. \<not> cmp a b \<le> 0 \<Longrightarrow> cmp b a \<le> 0"
  shows "sorted_wrt (\<lambda>a b. cmp a b \<le> 0) (sort_by cmp xs)"
proof (induction xs)
  case Nil
  show ?case by (simp add: sort_by_def)
next
  case (Cons x xs)
  have "sorted_wrt (\<lambda>a b. cmp a b \<le> 0) (insert_by cmp x (sort_by cmp xs))"
    using trans total Cons.IH by (rule sorted_insert_by)
  then show ?case by (simp add: sort_by_def)
qed

lemma categoryOrder_inj: "categoryOrder a = categoryOrder b \<longleftrightarrow> a = b"
  by (cases a; cases b) (simp_all add: categoryOrder_def)

lemma compare_matches_le:
  "compare_matches a b \<le> 0 \<longleftrightarrow>
     categoryOrder (category a) < categoryOrder (category b)
     \<or> (category a = category b \<and> totalCount b \<le> totalCount a)"
proof (cases "category a = category b")
  case True
  then show ?thesis by (simp add: compare_matches_def)
next
  case False
  then have "categoryOrder (category a) \<noteq> categoryOrder (category b)"
    by (simp add: categoryOrder_inj)
  with False show ?thesis by (simp add: compare_matches_def Let_def) linarith
qed

lemma sorted_matches:
  "sorted_wrt (\<lambda>a b. compare_matches a b \<le> 0) (sort_by compare_matches ms)"
proof (rule sorted_sort_by)
  fix a b c
  assume "compare_matches a b \<le> 0" "compare_matches b c \<le> 0"
  then show "compare_matches a c \<le> 0"
    unfolding compare_matches_le by auto
next
  fix a b
  assume "\<not> compare_matches a b \<le> 0"
  then show "compare_matches b a \<le> 0"
    unfolding compare_matches_le using categoryOrder_inj [of "category a" "category b"] by auto
qed

text \<open>
  Claim C9. The list the Exact-Line Matcher returns has at most 50 entries, and of any
  two entries the earlier one has the category of higher priority (error, then warning,
  info, debug, other) or, in the same category, a total count that is not smaller.
\<close>

theorem matches_sorted_and_capped:
  "(let r = findExactLineMatches files in
      length r \<le> 50
      \<and> (\<forall>i j. i < j \<and> j < length r \<longrightarrow>
            categoryOrder (category (r ! i)) < categoryOrder (category (r ! j))
            \<or> (category (r ! i) = category (r ! j) \<and> totalCount (r ! j) \<le> totalCount (r ! i))))
   \<and> categoryOrder Error < categoryOrder Warning \<and> categoryOrder Warning < categoryOrder Info
   \<and> categoryOrder Info < categoryOrder Debug \<and> categoryOrder Debug < categoryOrder Other"
proof -
  let ?r = "findExactLineMatches files"
  have s: "sorted_wrt (\<lambda>a b. compare_matches a b \<le> 0) ?r"
    by (simp add: findExactLineMatches_def Let_def sorted_matches sorted_wrt_take)
  have l: "length ?r \<le> 50"
    by (simp add: findExactLineMatches_def Let_def)
  have "compare_matches (?r ! i) (?r ! j) \<le> 0" if "i < j" "j < length ?r" for i j
    using s that by (simp add: sorted_wrt_iff_nth_less)
  then have q: "\<forall>i j. i < j \<and> j < length ?r \<longrightarrow>
            categoryOrder (category (?r ! i)) < categoryOrder (category (?r ! j))
            \<or> (category (?r ! i) = category (?r ! j) \<and> totalCount (?r ! j) \<le> totalCount (?r ! i))"
    by (simp add: compare_matches_le)
  have o: "categoryOrder Error < categoryOrder Warning \<and> categoryOrder Warning < categoryOrder Info
   \<and> categoryOrder Info < categoryOrder Debug \<and> categoryOrder Debug < categoryOrder Other"
    by (simp add: categoryOrder_def)
  show ?thesis unfolding Let_def using l q o by blast
qed



subsection \<open>The line map\<close>

lemma trim_idem: "trim (trim s) = trim s"
proof -
  define t where "t = dropWhile is_space s"
  define u where "u = rev (dropWhile is_space (rev t))"
  have ts: "trim s = u" by (simp add: trim_def t_def u_def)
  have tu: "t = u @ rev (takeWhile is_space (rev t))"
  proof -
    have "u @ rev (takeWhile is_space (rev t))
        = rev (takeWhile is_space (rev t) @ dropWhile is_space (rev t))"
      unfolding u_def by (simp only: rev_append)
    also have "\<dots> = rev (rev t)" by (simp only: takeWhile_dropWhile_id)
    also have "\<dots> = t" by simp
    finally show ?thesis by simp
  qed
  have pre: "dropWhile is_space u = u"
  proof (cases u)
    case Nil
    then show ?thesis by simp
  next
    case (Cons c cs)
    with tu have "t = c # cs @ rev (takeWhile is_space (rev t))" by simp
    then have "hd t = c" and "t \<noteq> []" by (metis list.sel(1), auto)
    then have "\<not> is_space c" using hd_dropWhile [of is_space s] by (auto simp: t_def)
    with Cons show ?thesis by simp
  qed
  have "dropWhile is_space (rev u) = rev u"
    by (simp add: u_def dropWhile_idem)
  then have "trim u = u" using pre by (simp add: trim_def)
  with ts show ?thesis by simp
qed

lemma line_key_trim: "line_key (trim raw) = line_key raw"
  by (simp add: line_key_def trim_idem)

lemma set_update_subset: "set (AList.update k v al) \<subseteq> insert (k, v) (set al)"
  by (induction al) auto

lemma add_occurrence_keys:
  "fst ` set (add_occurrence fname n occs) = insert fname (fst ` set occs)"
proof (cases "map_of occs fname")
  case None
  then have "map_of (occs @ [(fname, [])]) fname = Some []"
    by (simp add: map_add_def)
  with None show ?thesis
    by (auto simp: add_occurrence_def Let_def dom_update)
next
  case (Some lns)
  then have "fname \<in> fst ` set occs"
    by (meson domI domIff map_of_eq_None_iff)
  with Some show ?thesis
    by (auto simp: add_occurrence_def Let_def dom_update)
qed

lemma add_occurrence_distinct:
  "distinct (map fst occs) \<Longrightarrow> distinct (map fst (add_occurrence fname n occs))"
proof (cases "map_of occs fname")
  case None
  assume d: "distinct (map fst occs)"
  from None have nin: "fname \<notin> fst ` set occs" by (simp add: map_of_eq_None_iff)
  from None have "map_of (occs @ [(fname, [])]) fname = Some []"
    by (simp add: map_add_def)
  with None d nin show ?thesis
    by (simp add: add_occurrence_def Let_def distinct_update)
next
  case (Some lns)
  assume "distinct (map fst occs)"
  with Some show ?thesis
    by (simp add: add_occurrence_def Let_def distinct_update)
qed

lemma record_line_cases:
  "record_line fname n raw lineMap =
     (case line_key raw of
        None \<Rightarrow> lineMap
      | Some k \<Rightarrow>
          (let lineMap1 =
                (if map_of lineMap k = None
                 then lineMap @ [(k, \<lparr>original = trim raw, entry_occurrences = [],
                                     entry_category = categorize (trim raw)\<rparr>)]
                 else lineMap)
           in case map_of lineMap1 k of
                None \<Rightarrow> lineMap1
              | Some entry \<Rightarrow>
                  AList.update k
                    (entry\<lparr>entry_occurrences := add_occurrence fname (n + 1) (entry_occurrences entry)\<rparr>)
                    lineMap1))"
  by (simp add: record_line_def line_key_def Let_def)

lemma map_ok_record_line:
  assumes ok: "map_ok files lineMap"
    and hf: "\<And>k. line_key raw = Some k \<Longrightarrow> has_file files fname k"
  shows "map_ok files (record_line fname n raw lineMap)"
proof (cases "line_key raw")
  case None
  with ok show ?thesis by (simp add: record_line_cases)
next
  case (Some k)
  define fresh where "fresh = \<lparr>original = trim raw, entry_occurrences = [],
                                 entry_category = categorize (trim raw)\<rparr>"
  define lineMap1 where
    "lineMap1 = (if map_of lineMap k = None then lineMap @ [(k, fresh)] else lineMap)"
  have fresh_ok: "entry_ok files k fresh"
    using Some by (simp add: entry_ok_def fresh_def line_key_trim)
  have ok1: "map_ok files lineMap1"
  proof (cases "map_of lineMap k = None")
    case True
    then have "k \<notin> fst ` set lineMap" by (simp add: map_of_eq_None_iff)
    with ok fresh_ok True show ?thesis
      by (auto simp: map_ok_def lineMap1_def)
  next
    case False
    then have "lineMap1 = lineMap" by (simp only: lineMap1_def if_False)
    with ok show ?thesis by simp
  qed
  have res: "record_line fname n raw lineMap =
      (case map_of lineMap1 k of
         None \<Rightarrow> lineMap1
       | Some entry \<Rightarrow>
           AList.update k
             (entry\<lparr>entry_occurrences := add_occurrence fname (n + 1) (entry_occurrences entry)\<rparr>)
             lineMap1)"
    by (simp only: record_line_cases Some option.case Let_def lineMap1_def fresh_def)
  show ?thesis
  proof (cases "map_of lineMap1 k")
    case None
    with res ok1 show ?thesis by simp
  next
    case (Some entry)
    then have "(k, entry) \<in> set lineMap1" by (rule map_of_SomeD)
    with ok1 have e: "entry_ok files k entry" by (auto simp: map_ok_def)
    define entry' where
      "entry' = entry\<lparr>entry_occurrences := add_occurrence fname (n + 1) (entry_occurrences entry)\<rparr>"
    have e': "entry_ok files k entry'"
      using e hf [OF \<open>line_key raw = Some k\<close>]
      by (auto simp: entry_ok_def entry'_def add_occurrence_keys add_occurrence_distinct)
    have d: "distinct (map fst (AList.update k entry' lineMap1))"
      using ok1 by (simp add: map_ok_def distinct_update)
    have "\<forall>(k', en) \<in> set (AList.update k entry' lineMap1). entry_ok files k' en"
      using set_update_subset [of k entry' lineMap1] ok1 e'
      by (auto simp: map_ok_def)
    with d have "map_ok files (AList.update k entry' lineMap1)"
      by (simp add: map_ok_def)
    with res Some show ?thesis by (simp add: entry'_def)
  qed
qed

lemma map_ok_fold_lines:
  assumes "\<forall>(i, raw) \<in> set ps. \<forall>k. line_key raw = Some k \<longrightarrow> has_file files fname k"
    and "map_ok files lineMap"
  shows "map_ok files (fold (\<lambda>(i, raw). record_line fname i raw) ps lineMap)"
  using assms
proof (induction ps arbitrary: lineMap)
  case Nil
  then show ?case by simp
next
  case (Cons p ps)
  obtain i raw where p: "p = (i, raw)" by (cases p)
  from Cons.prems(1) p have "\<And>k. line_key raw = Some k \<Longrightarrow> has_file files fname k"
    by auto
  with Cons.prems(2) have "map_ok files (record_line fname i raw lineMap)"
    by (rule map_ok_record_line)
  moreover from Cons.prems(1)
  have "\<forall>(i, raw) \<in> set ps. \<forall>k. line_key raw = Some k \<longrightarrow> has_file files fname k"
    by simp
  ultimately show ?case using Cons.IH p by simp
qed

lemma map_ok_scan_file:
  assumes "map_ok files lineMap" and "f \<in> set files"
  shows "map_ok files (scan_file f lineMap)"
proof -
  have "\<forall>(i, raw) \<in> set (enumerate 0 (split_lines (file_content f))).
          \<forall>k. line_key raw = Some k \<longrightarrow> has_file files (file_name f) k"
  proof (intro ballI allI impI, clarify)
    fix i raw k
    assume "(i, raw) \<in> set (enumerate 0 (split_lines (file_content f)))"
      and k: "line_key raw = Some k"
    then have "raw \<in> set (split_lines (file_content f))"
      by (auto simp: in_set_enumerate_eq)
    with k have "occurs_in k f" unfolding occurs_in_def by blast
    with assms(2) show "has_file files (file_name f) k" unfolding has_file_def by blast
  qed
  then show ?thesis
    unfolding scan_file_def using assms(1) by (rule map_ok_fold_lines)
qed

lemma map_ok_fold_files:
  assumes "set fs \<subseteq> set files" and "map_ok files lineMap"
  shows "map_ok files (fold scan_file fs lineMap)"
  using assms
  by (induction fs arbitrary: lineMap) (auto simp: map_ok_scan_file)

lemma map_ok_all: "map_ok files (fold scan_file files [])"
  by (rule map_ok_fold_files) (simp_all add: map_ok_def)

subsection \<open>The returned matches\<close>

lemma entry_qualifying:
  assumes e: "entry_ok files k entry" and two: "2 \<le> length (entry_occurrences entry)"
  shows "qualifying files k"
proof -
  let ?occs = "entry_occurrences entry"
  from e have d: "distinct (map fst ?occs)"
    and hf: "\<forall>fname \<in> fst ` set ?occs. has_file files fname k"
    by (simp_all add: entry_ok_def)
  from two have i0: "0 < length ?occs" and i1: "1 < length ?occs" by linarith+
  from d i0 i1 have ne: "fst (?occs ! 0) \<noteq> fst (?occs ! 1)"
    using nth_eq_iff_index_eq [of "map fst ?occs" 0 1] by simp
  from i0 hf have "has_file files (fst (?occs ! 0)) k" by (simp add: nth_mem)
  then obtain f1 where f1: "f1 \<in> set files" "file_name f1 = fst (?occs ! 0)" "occurs_in k f1"
    unfolding has_file_def by blast
  from i1 hf have "has_file files (fst (?occs ! 1)) k" by (simp add: nth_mem)
  then obtain f2 where f2: "f2 \<in> set files" "file_name f2 = fst (?occs ! 1)" "occurs_in k f2"
    unfolding has_file_def by blast
  from f1 f2 ne show ?thesis unfolding qualifying_def by force
qed

lemma to_match_filenames:
  "map occ_filename (occurrences (to_match entry)) = map fst (entry_occurrences entry)"
  by (simp add: to_match_def split_def)

lemma result_subset:
  "set (findExactLineMatches files) \<subseteq> set (collect_matches (fold scan_file files []))"
proof -
  have "set (take 50 (sort_by compare_matches ms)) \<subseteq> set ms" for ms
    using set_take_subset [of 50 "sort_by compare_matches ms"] by (simp add: set_sort_by)
  then show ?thesis by (simp add: findExactLineMatches_def Let_def)
qed

lemma result_nonempty:
  assumes "findExactLineMatches files \<noteq> []"
  shows "2 \<le> length (collect_matches (fold scan_file files []))"
proof -
  from assms have "\<not> length (sort_by compare_matches (collect_matches (fold scan_file files []))) < 2"
    by (auto simp: findExactLineMatches_def Let_def split: if_splits)
  then show ?thesis by (simp add: length_sort_by)
qed

lemma collected_match:
  assumes "m \<in> set (collect_matches lineMap)"
  obtains k entry where "(k, entry) \<in> set lineMap" "2 \<le> length (entry_occurrences entry)"
    "m = to_match entry"
  using assms by (auto simp: collect_matches_def)

text \<open>
  Claim C2. Every match the Exact-Line Matcher returns lists two or more occurrences,
  under pairwise different file names, each the name of an input file in which the
  match's normalized line occurs; so that normalized line occurs in two input files with
  different names, and never in one file only. When the returned list is not empty, at
  least two different normalized lines qualify in this way. This holds for every list
  of files, in particular for two or more.
\<close>

theorem matches_span_two_files:
  "(let r = findExactLineMatches files in
      (\<forall>m \<in> set r.
         2 \<le> length (occurrences m)
         \<and> distinct (map occ_filename (occurrences m))
         \<and> (\<exists>k. line_key (match_line m) = Some k \<and> qualifying files k
                \<and> (\<forall>oc \<in> set (occurrences m). has_file files (occ_filename oc) k)))
      \<and> (r \<noteq> [] \<longrightarrow> (\<exists>k1 k2. k1 \<noteq> k2 \<and> qualifying files k1 \<and> qualifying files k2)))"
proof -
  let ?lm = "fold scan_file files []"
  let ?r = "findExactLineMatches files"
  have ok: "map_ok files ?lm" by (rule map_ok_all)
  have each: "2 \<le> length (occurrences m)
         \<and> distinct (map occ_filename (occurrences m))
         \<and> (\<exists>k. line_key (match_line m) = Some k \<and> qualifying files k
                \<and> (\<forall>oc \<in> set (occurrences m). has_file files (occ_filename oc) k))"
    if "m \<in> set ?r" for m
  proof -
    from that result_subset have "m \<in> set (collect_matches ?lm)" by blast
    then obtain k entry where ke: "(k, entry) \<in> set ?lm"
      and two: "2 \<le> length (entry_occurrences entry)" and m: "m = to_match entry"
      by (rule collected_match)
    from ok ke have e: "entry_ok files k entry" by (auto simp: map_ok_def)
    have a: "2 \<le> length (occurrences m)" using two m by (simp add: to_match_def)
    have b: "distinct (map occ_filename (occurrences m))"
      using e m by (simp add: to_match_filenames entry_ok_def)
    have c: "line_key (match_line m) = Some k"
      using e m by (simp add: to_match_def entry_ok_def)
    have d: "qualifying files k" using e two by (rule entry_qualifying)
    have eq: "set (map occ_filename (occurrences m)) = fst ` set (entry_occurrences entry)"
      using m by (simp add: to_match_filenames)
    have f: "\<forall>oc \<in> set (occurrences m). has_file files (occ_filename oc) k"
    proof
      fix oc assume "oc \<in> set (occurrences m)"
      then have "occ_filename oc \<in> set (map occ_filename (occurrences m))" by simp
      with eq have "occ_filename oc \<in> fst ` set (entry_occurrences entry)" by (simp only:)
      with e show "has_file files (occ_filename oc) k" unfolding entry_ok_def by blast
    qed
    from a b c d f show ?thesis by blast
  qed
  have two_groups: "\<exists>k1 k2. k1 \<noteq> k2 \<and> qualifying files k1 \<and> qualifying files k2" if "?r \<noteq> []"
  proof -
    let ?fl = "filter (\<lambda>(k, entry). length (entry_occurrences entry) \<ge> 2) ?lm"
    from that have "2 \<le> length (collect_matches ?lm)" by (rule result_nonempty)
    then have len: "2 \<le> length ?fl" by (simp add: collect_matches_def)
    from ok have "distinct (map fst ?lm)" by (simp add: map_ok_def)
    then have dfl: "distinct (map fst ?fl)" by (rule distinct_map_filter)
    from len have i0: "0 < length ?fl" and i1: "1 < length ?fl" by linarith+
    from dfl i0 i1 have ne: "fst (?fl ! 0) \<noteq> fst (?fl ! 1)"
      using nth_eq_iff_index_eq [of "map fst ?fl" 0 1] by simp
    have q: "qualifying files (fst (?fl ! i))" if "i < length ?fl" for i
    proof -
      from that have mem: "?fl ! i \<in> set ?fl" by (rule nth_mem)
      obtain k entry where p: "?fl ! i = (k, entry)" by (cases "?fl ! i")
      with mem have "(k, entry) \<in> set ?lm" and two: "2 \<le> length (entry_occurrences entry)"
        by auto
      with ok have "entry_ok files k entry" by (auto simp: map_ok_def)
      then have "qualifying files k" using two by (rule entry_qualifying)
      with p show ?thesis by simp
    qed
    from ne q [OF i0] q [OF i1] show ?thesis by blast
  qed
  show ?thesis unfolding Let_def using each two_groups by blast
qed

text \<open>The two example logs: the matcher's result, computed.\<close>

lemma ex_logs_result:
  "findExactLineMatches [ex_log_a, ex_log_b] =
     [\<lparr>match_line = ''2024-01-01T00:00:00Z ERROR db down'',
       occurrences = [\<lparr>occ_filename = ''a.log'', lineNumbers = [1, 2]\<rparr>,
                      \<lparr>occ_filename = ''b.log'', lineNumbers = [2]\<rparr>],
       category = Error, totalCount = 3\<rparr>,
      \<lparr>match_line = ''[2024-01-01 00:00:07] INFO retrying pid:41 now'',
       occurrences = [\<lparr>occ_filename = ''a.log'', lineNumbers = [3]\<rparr>,
                      \<lparr>occ_filename = ''b.log'', lineNumbers = [1]\<rparr>],
       category = Info, totalCount = 2\<rparr>]"
  by code_simp

theorem matches_span_two_files_witness:
  "findExactLineMatches [ex_log_a, ex_log_b] \<noteq> []
   \<and> (\<exists>k1 k2. k1 \<noteq> k2 \<and> qualifying [ex_log_a, ex_log_b] k1 \<and> qualifying [ex_log_a, ex_log_b] k2)
   \<and> (\<exists>k. line_key ''2024-01-01T00:00:00Z ERROR db down'' = Some k
          \<and> qualifying [ex_log_a, ex_log_b] k)"
proof -
  let ?fs = "[ex_log_a, ex_log_b]"
  let ?m = "\<lparr>match_line = ''2024-01-01T00:00:00Z ERROR db down'',
       occurrences = [\<lparr>occ_filename = ''a.log'', lineNumbers = [1, 2]\<rparr>,
                      \<lparr>occ_filename = ''b.log'', lineNumbers = [2]\<rparr>],
       category = Error, totalCount = 3\<rparr>"
  note T = matches_span_two_files [of ?fs, unfolded Let_def]
  have ne: "findExactLineMatches ?fs \<noteq> []" by (simp add: ex_logs_result)
  have mem: "?m \<in> set (findExactLineMatches ?fs)" by (simp add: ex_logs_result)
  from T ne have a: "\<exists>k1 k2. k1 \<noteq> k2 \<and> qualifying ?fs k1 \<and> qualifying ?fs k2" by blast
  from T mem have "\<exists>k. line_key (match_line ?m) = Some k \<and> qualifying ?fs k
      \<and> (\<forall>oc \<in> set (occurrences ?m). has_file ?fs (occ_filename oc) k)"
    by blast
  then have b: "\<exists>k. line_key ''2024-01-01T00:00:00Z ERROR db down'' = Some k \<and> qualifying ?fs k"
    by auto
  from ne a b show ?thesis by blast
qed

theorem matches_sorted_and_capped_witness:
  "length (findExactLineMatches [ex_log_a, ex_log_b]) = 2
   \<and> category (findExactLineMatches [ex_log_a, ex_log_b] ! 0) = Error
   \<and> category (findExactLineMatches [ex_log_a, ex_log_b] ! 1) = Info
   \<and> (categoryOrder (category (findExactLineMatches [ex_log_a, ex_log_b] ! 0))
         < categoryOrder (category (findExactLineMatches [ex_log_a, ex_log_b] ! 1))
       \<or> (category (findExactLineMatches [ex_log_a, ex_log_b] ! 0)
            = category (findExactLineMatches [ex_log_a, ex_log_b] ! 1)
          \<and> totalCount (findExactLineMatches [ex_log_a, ex_log_b] ! 1)
            \<le> totalCount (findExactLineMatches [ex_log_a, ex_log_b] ! 0)))"
proof -
  let ?r = "findExactLineMatches [ex_log_a, ex_log_b]"
  note T = matches_sorted_and_capped [of "[ex_log_a, ex_log_b]", unfolded Let_def]
  have len: "length ?r = 2" by (simp add: ex_logs_result)
  have c0: "category (?r ! 0) = Error" and c1: "category (?r ! 1) = Info"
    by (simp_all add: ex_logs_result)
  from T have "\<forall>i j. i < j \<and> j < length ?r \<longrightarrow>
            categoryOrder (category (?r ! i)) < categoryOrder (category (?r ! j))
            \<or> (category (?r ! i) = category (?r ! j) \<and> totalCount (?r ! j) \<le> totalCount (?r ! i))"
    by blast
  moreover have "(0::nat) < 1 \<and> 1 < length ?r" using len by simp
  ultimately have "categoryOrder (category (?r ! 0)) < categoryOrder (category (?r ! 1))
            \<or> (category (?r ! 0) = category (?r ! 1) \<and> totalCount (?r ! 1) \<le> totalCount (?r ! 0))"
    by blast
  with len c0 c1 show ?thesis by blast
qed


end
